theory Spec2Isabelle
  imports Main
begin

section \<open>Data model of Guillotine_Cut_MISR.cpp\<close>

text \<open>
  \<^verbatim>\<open>struct Rect { long long xl, yb, xr, yt; };\<close>
  The coordinates are only compared, never added, so they are modelled as integers.
\<close>

record Rect =
  xl :: int
  yb :: int
  xr :: int
  yt :: int

text \<open>
  \<^verbatim>\<open>struct Choice { int type = 0, param = -1; };\<close>
  type 1 is a leaf (param is the rectangle id), type 2 a vertical cut at column param,
  type 3 a horizontal cut at row param.
\<close>

record Choice =
  type :: int
  param :: int

text \<open>\<^verbatim>\<open>struct Answer { int val = 0; Choice ch; };\<close>\<close>

record Answer =
  val :: int
  ch :: Choice

text \<open>The value-initialised \<^verbatim>\<open>Answer{0,{}}\<close>.\<close>

definition Answer0 :: Answer where
  "Answer0 = \<lparr>val = 0, ch = \<lparr>type = 0, param = - 1\<rparr>\<rparr>"

text \<open>\<^verbatim>\<open>struct Key { int xi, xj, yk, yl; };\<close> and the table \<^verbatim>\<open>memo\<close>.\<close>

type_synonym Key = "int \<times> int \<times> int \<times> int"

type_synonym Memo = "Key \<rightharpoonup> Answer"

text \<open>
  \<^verbatim>\<open>struct RI { int xl, xr, yb, yt; };\<close>
  The fields carry an \<open>i\<close> in front, since \<open>Rect\<close> has fields of the same names.
\<close>

record RI =
  ixl :: int
  ixr :: int
  iyb :: int
  iyt :: int

section \<open>Coordinate compression and indexing\<close>

text \<open>
  \<^verbatim>\<open>for (auto &r : R) { xs.push_back(r.xl); xs.push_back(r.xr); ... }
  sort(xs.begin(), xs.end()); xs.erase(unique(xs.begin(), xs.end()), xs.end());\<close>
\<close>

definition compress_xs :: "Rect list \<Rightarrow> int list" where
  "compress_xs R = remdups_adj (sort (concat (map (\<lambda>r. [xl r, xr r]) R)))"

definition compress_ys :: "Rect list \<Rightarrow> int list" where
  "compress_ys R = remdups_adj (sort (concat (map (\<lambda>r. [yb r, yt r]) R)))"

text \<open>\<^verbatim>\<open>lower_bound(v.begin(), v.end(), t) - v.begin()\<close>: the first position holding a value
  not less than \<open>t\<close>, the length when there is none.\<close>

definition lower_bound :: "int list \<Rightarrow> int \<Rightarrow> int" where
  "lower_bound v t = int (length (takeWhile (\<lambda>x. x < t) v))"

definition index_rect :: "int list \<Rightarrow> int list \<Rightarrow> Rect \<Rightarrow> RI" where
  "index_rect xs ys r =
     \<lparr>ixl = lower_bound xs (xl r), ixr = lower_bound xs (xr r),
      iyb = lower_bound ys (yb r), iyt = lower_bound ys (yt r)\<rparr>"

definition index_all :: "Rect list \<Rightarrow> RI list" where
  "index_all R = map (index_rect (compress_xs R) (compress_ys R)) R"

section \<open>The memoised engine\<close>

text \<open>\<^verbatim>\<open>exactMatch(rid, xi, xj, yk, yl)\<close> reads \<^verbatim>\<open>RIv[rid]\<close>.\<close>

definition exactMatch :: "RI list \<Rightarrow> nat \<Rightarrow> int \<Rightarrow> int \<Rightarrow> int \<Rightarrow> int \<Rightarrow> bool" where
  "exactMatch RIv rid xi xj yk yl =
     (let q = RIv ! rid in ixl q = xi \<and> ixr q = xj \<and> iyb q = yk \<and> iyt q = yl)"

text \<open>\<^verbatim>\<open>windowHasAnyRect\<close>: some rectangle lies fully inside the window.\<close>

definition windowHasAnyRect :: "RI list \<Rightarrow> int \<Rightarrow> int \<Rightarrow> int \<Rightarrow> int \<Rightarrow> bool" where
  "windowHasAnyRect RIv xi xj yk yl =
     list_ex (\<lambda>rid. let q = RIv ! rid in ixl q \<ge> xi \<and> ixr q \<le> xj \<and> iyb q \<ge> yk \<and> iyt q \<le> yl)
       [0..<length RIv]"

text \<open>The leaf loop: the first \<open>rid\<close> in \<open>0..n-1\<close> that matches exactly replaces the
  initial \<open>best\<close>, and the loop breaks.\<close>

definition leaf_option :: "RI list \<Rightarrow> int \<Rightarrow> int \<Rightarrow> int \<Rightarrow> int \<Rightarrow> Answer" where
  "leaf_option RIv xi xj yk yl =
     (case List.find (\<lambda>rid. exactMatch RIv rid xi xj yk yl) [0..<length RIv] of
        None \<Rightarrow> Answer0
      | Some rid \<Rightarrow> \<lparr>val = 1, ch = \<lparr>type = 1, param = int rid\<rparr>\<rparr>)"

text \<open>
  \<open>solve\<close> threads the memo table; \<open>vcuts\<close> and \<open>hcuts\<close> are the two \<^verbatim>\<open>for\<close> loops
  over the cut position \<open>c\<close>, with the running \<open>best\<close>. The \<^verbatim>\<open>int\<close> indices and values
  are taken as integers: in a run they stay between -1 and 2n, so nothing wraps as long
  as 2n fits an \<^verbatim>\<open>int\<close>.
\<close>

function solve :: "RI list \<Rightarrow> Memo \<Rightarrow> int \<Rightarrow> int \<Rightarrow> int \<Rightarrow> int \<Rightarrow> Answer \<times> Memo"
  and vcuts :: "RI list \<Rightarrow> Memo \<Rightarrow> int \<Rightarrow> int \<Rightarrow> int \<Rightarrow> int \<Rightarrow> int \<Rightarrow> Answer \<Rightarrow> Answer \<times> Memo"
  and hcuts :: "RI list \<Rightarrow> Memo \<Rightarrow> int \<Rightarrow> int \<Rightarrow> int \<Rightarrow> int \<Rightarrow> int \<Rightarrow> Answer \<Rightarrow> Answer \<times> Memo"
where
  "solve RIv memo xi xj yk yl =
     (if xi \<ge> xj \<or> yk \<ge> yl then (Answer0, memo)
      else case memo (xi, xj, yk, yl) of
        Some a \<Rightarrow> (a, memo)
      | None \<Rightarrow>
          if \<not> windowHasAnyRect RIv xi xj yk yl
          then (Answer0, memo((xi, xj, yk, yl) \<mapsto> Answer0))
          else (case vcuts RIv memo xi xj yk yl (xi + 1) (leaf_option RIv xi xj yk yl) of
                  (best1, memo1) \<Rightarrow>
                (case hcuts RIv memo1 xi xj yk yl (yk + 1) best1 of
                  (best2, memo2) \<Rightarrow> (best2, memo2((xi, xj, yk, yl) \<mapsto> best2)))))"
| "vcuts RIv memo xi xj yk yl c best =
     (if c \<le> xj - 1
      then (case solve RIv memo xi c yk yl of (L, memo1) \<Rightarrow>
           (case solve RIv memo1 c xj yk yl of (Rw, memo2) \<Rightarrow>
              let v = val L + val Rw in
              vcuts RIv memo2 xi xj yk yl (c + 1)
                (if v > val best then \<lparr>val = v, ch = \<lparr>type = 2, param = c\<rparr>\<rparr> else best)))
      else (best, memo))"
| "hcuts RIv memo xi xj yk yl c best =
     (if c \<le> yl - 1
      then (case solve RIv memo xi xj yk c of (B, memo1) \<Rightarrow>
           (case solve RIv memo1 xi xj c yl of (T, memo2) \<Rightarrow>
              let v = val B + val T in
              hcuts RIv memo2 xi xj yk yl (c + 1)
                (if v > val best then \<lparr>val = v, ch = \<lparr>type = 3, param = c\<rparr>\<rparr> else best)))
      else (best, memo))"
  by pat_completeness auto
termination
  by (relation "inv_image (less_than <*lex*> less_than <*lex*> less_than)
        (\<lambda>a. case a of
           Inl (RIv, memo, xi, xj, yk, yl) \<Rightarrow> (nat (xj - xi) + nat (yl - yk), 2, 0)
         | Inr (Inl (RIv, memo, xi, xj, yk, yl, c, best)) \<Rightarrow>
             (max (nat (xj - xi)) (nat (xj - c + 1)) + nat (yl - yk), 1, nat (xj - c))
         | Inr (Inr (RIv, memo, xi, xj, yk, yl, c, best)) \<Rightarrow>
             (nat (xj - xi) + max (nat (yl - yk)) (nat (yl - c + 1)), 1, nat (yl - c)))")
    auto

declare solve.simps [simp del] vcuts.simps [simp del] hcuts.simps [simp del]

section \<open>Reconstruction\<close>

text \<open>
  \<open>recon\<close> appends to \<^verbatim>\<open>chosen\<close>. On an arbitrary table it need not return, so the result
  is an option: \<open>None\<close> stands for a run that never returns.
\<close>

partial_function (option) recon :: "Memo \<Rightarrow> int \<Rightarrow> int \<Rightarrow> int \<Rightarrow> int \<Rightarrow> int list \<Rightarrow> int list option"
where
  "recon memo xi xj yk yl chosen =
     (case memo (xi, xj, yk, yl) of
        None \<Rightarrow> Some chosen
      | Some A \<Rightarrow>
          if val A = 0 then Some chosen
          else if type (ch A) = 1 then Some (chosen @ [param (ch A)])
          else if type (ch A) = 2
            then Option.bind (recon memo xi (param (ch A)) yk yl chosen)
                   (\<lambda>chosen1. recon memo (param (ch A)) xj yk yl chosen1)
          else if type (ch A) = 3
            then Option.bind (recon memo xi xj yk (param (ch A)) chosen)
                   (\<lambda>chosen1. recon memo xi xj (param (ch A)) yl chosen1)
          else Some chosen)"

declare recon.simps [code]

section \<open>The program\<close>

text \<open>
  Formatted extraction \<^verbatim>\<open>cin >> v\<close> of an integer, as the C++ library does it in the
  default locale with the decimal base: leading white space is skipped, an optional sign and
  then the longest run of decimal digits is consumed, and the extraction fails when there
  is no digit or when the value does not fit the type (\<open>lo\<close> and \<open>hi\<close> are its bounds).
  What follows the digits stays in the stream.
\<close>

definition is_space :: "char \<Rightarrow> bool" where
  "is_space c \<longleftrightarrow> c \<in> set [CHR '' '', CHR 0x09, CHR 0x0A, CHR 0x0B, CHR 0x0C, CHR 0x0D]"

definition is_digit :: "char \<Rightarrow> bool" where
  "is_digit c \<longleftrightarrow> c \<in> set ''0123456789''"

definition digits_value :: "string \<Rightarrow> int" where
  "digits_value ds = foldl (\<lambda>acc d. 10 * acc + (int (of_char d) - 48)) 0 ds"

definition extract_num :: "int \<Rightarrow> int \<Rightarrow> string \<Rightarrow> (int \<times> string) option" where
  "extract_num lo hi s =
     (let s1 = dropWhile is_space s;
          neg = (s1 \<noteq> [] \<and> hd s1 = CHR ''-'');
          s2 = (if s1 \<noteq> [] \<and> (hd s1 = CHR ''-'' \<or> hd s1 = CHR ''+'') then tl s1 else s1);
          ds = takeWhile is_digit s2;
          v = (if neg then - digits_value ds else digits_value ds)
      in if ds = [] \<or> v < lo \<or> hi < v then None else Some (v, dropWhile is_digit s2))"

definition extract_int :: "string \<Rightarrow> (int \<times> string) option" where
  "extract_int = extract_num (- (2 ^ 31)) (2 ^ 31 - 1)"

definition extract_ll :: "string \<Rightarrow> (int \<times> string) option" where
  "extract_ll = extract_num (- (2 ^ 63)) (2 ^ 63 - 1)"

text \<open>The three diagnostics written to \<^verbatim>\<open>cerr\<close>; each is followed by \<^verbatim>\<open>return 1\<close>.\<close>

datatype diag =
    NotPositiveN       \<comment> \<open>first line must be a positive integer n\<close>
  | BadLine int        \<comment> \<open>line (i+2) must have 4 numbers\<close>
  | BadRect int        \<comment> \<open>rectangle i must satisfy xl<xr and yb<yt\<close>

text \<open>
  \<^verbatim>\<open>cin >> R[i].xl >> R[i].yb >> R[i].xr >> R[i].yt\<close>: once an extraction has failed the
  later ones of the chain do nothing and the stream tests false.
\<close>

definition extract4 :: "string \<Rightarrow> (Rect \<times> string) option" where
  "extract4 s =
     (case extract_ll s of None \<Rightarrow> None | Some (a, s1) \<Rightarrow>
      case extract_ll s1 of None \<Rightarrow> None | Some (b, s2) \<Rightarrow>
      case extract_ll s2 of None \<Rightarrow> None | Some (c, s3) \<Rightarrow>
      case extract_ll s3 of None \<Rightarrow> None | Some (d, s4) \<Rightarrow>
        Some (\<lparr>xl = a, yb = b, xr = c, yt = d\<rparr>, s4))"

text \<open>The reading loop \<^verbatim>\<open>for (int i = 0; i < n; ++i)\<close>; \<open>k\<close> counts the records left.\<close>

fun read_rects :: "nat \<Rightarrow> int \<Rightarrow> string \<Rightarrow> diag + Rect list" where
  "read_rects 0 i s = Inr []"
| "read_rects (Suc k) i s =
     (case extract4 s of
        None \<Rightarrow> Inl (BadLine (i + 2))
      | Some (r, s') \<Rightarrow>
          if \<not> (xl r < xr r \<and> yb r < yt r) then Inl (BadRect i)
          else (case read_rects k (i + 1) s' of Inl d \<Rightarrow> Inl d | Inr rs \<Rightarrow> Inr (r # rs)))"

text \<open>
  Memory. \<^verbatim>\<open>vector<Rect> R(n)\<close> on line 40 allocates room for n rectangles as soon as n is
  read and found positive, before any record is read; the vectors \<open>xs\<close>, \<open>ys\<close>, \<open>RIv\<close> and
  \<open>chosen\<close> and the entries of \<open>memo\<close> are allocated on lines 53 to 137, where \<open>solve\<close>
  and \<open>recon\<close> also recurse as deep as there are grid lines. The program catches nothing,
  so an allocation that fails (\<^verbatim>\<open>std::bad_alloc\<close>) ends the run at once by
  \<^verbatim>\<open>std::terminate\<close>, and a recursion that outgrows the stack ends it by a fault: in both
  cases with no diagnostic of the program's own and nothing on \<^verbatim>\<open>cout\<close> (the solution is
  printed only after \<open>recon\<close>). How much memory there is belongs to the machine, not to the
  program, so it is a parameter of the model: \<open>can_alloc n\<close> says that the vector of line 40
  can be allocated for n rectangles; \<open>engine_crash R\<close> says what stops lines 52 to 137 on
  the rectangle list \<open>R\<close> for lack of memory, \<open>None\<close> when nothing does.
\<close>

datatype crash = BadAlloc | StackOverflow

record env =
  can_alloc :: "nat \<Rightarrow> bool"
  engine_crash :: "Rect list \<Rightarrow> crash option"

text \<open>How the input phase (lines 34 to 50) can end the run.\<close>

datatype stop = Diagnosed diag | AllocFailed

definition read_input :: "(nat \<Rightarrow> bool) \<Rightarrow> string \<Rightarrow> stop + Rect list" where
  "read_input alloc s =
     (case extract_int s of
        None \<Rightarrow> Inl (Diagnosed NotPositiveN)
      | Some (n, s') \<Rightarrow>
          if n \<le> 0 then Inl (Diagnosed NotPositiveN)
          else if \<not> alloc (nat n) then Inl AllocFailed
          else (case read_rects (nat n) 0 s' of Inl d \<Rightarrow> Inl (Diagnosed d) | Inr R \<Rightarrow> Inr R))"

text \<open>
  Lines 52 to 137: compression, indexing, \<^verbatim>\<open>solve(0, X-1, 0, Y-1)\<close> on the empty table and
  \<^verbatim>\<open>recon(0, X-1, 0, Y-1)\<close> on the table \<open>solve\<close> left.
\<close>

definition engine :: "Rect list \<Rightarrow> Answer \<times> Memo" where
  "engine R =
     (let X = int (length (compress_xs R)); Y = int (length (compress_ys R))
      in solve (index_all R) Map.empty 0 (X - 1) 0 (Y - 1))"

definition reconstruct :: "Rect list \<Rightarrow> int list option" where
  "reconstruct R =
     (let X = int (length (compress_xs R)); Y = int (length (compress_ys R))
      in recon (snd (engine R)) 0 (X - 1) 0 (Y - 1) [])"

text \<open>
  What a run leaves behind: a diagnostic on \<^verbatim>\<open>cerr\<close> and exit status 1; or a crash for
  lack of memory, with no diagnostic of the program's own and nothing on \<^verbatim>\<open>cout\<close> (the
  process is ended by \<^verbatim>\<open>abort\<close> after a failed allocation, or by a segmentation fault
  when the stack runs out; a shell reports the statuses 134 and 139); or the solution
  block (the count and one line per chosen id with the bounds of that rectangle) and exit
  status 0.
\<close>

datatype outcome = Failed diag | Crashed crash | Solved int "(int \<times> Rect) list"

fun exit_status :: "outcome \<Rightarrow> int" where
  "exit_status (Failed d) = 1"
| "exit_status (Crashed BadAlloc) = 134"
| "exit_status (Crashed StackOverflow) = 139"
| "exit_status (Solved v ls) = 0"

text \<open>\<open>None\<close> is a run that never returns.\<close>

definition main :: "env \<Rightarrow> string \<Rightarrow> outcome option" where
  "main e s =
     (case read_input (can_alloc e) s of
        Inl (Diagnosed d) \<Rightarrow> Some (Failed d)
      | Inl AllocFailed \<Rightarrow> Some (Crashed BadAlloc)
      | Inr R \<Rightarrow>
          (case engine_crash e R of
             Some c \<Rightarrow> Some (Crashed c)
           | None \<Rightarrow>
               (case reconstruct R of
                  None \<Rightarrow> None
                | Some chosen \<Rightarrow>
                    Some (Solved (val (fst (engine R)))
                            (map (\<lambda>rid. (rid, R ! nat rid)) chosen)))))"

text \<open>
  \<^verbatim>\<open>rectanglesOverlap\<close> of ilp.cpp, the repository's test for two rectangles sharing interior
  points (touching edges and corners do not count), here on \<open>Rect\<close>.
\<close>

definition rectanglesOverlap :: "Rect \<Rightarrow> Rect \<Rightarrow> bool" where
  "rectanglesOverlap a b =
     (if min (xr a) (xr b) \<le> max (xl a) (xl b) then False
      else if min (yt a) (yt b) \<le> max (yb a) (yb b) then False
      else True)"

section \<open>Notions used to state and prove the properties\<close>

subsection \<open>Instances and windows\<close>

text \<open>
  A valid instance, as the reading loop of \<open>main\<close> admits it: at least one rectangle, and
  every rectangle with xl < xr and yb < yt.
\<close>

definition ordered :: "Rect \<Rightarrow> bool" where
  "ordered r \<longleftrightarrow> xl r < xr r \<and> yb r < yt r"

definition valid_instance :: "Rect list \<Rightarrow> bool" where
  "valid_instance R \<longleftrightarrow> R \<noteq> [] \<and> (\<forall>r\<in>set R. xl r < xr r \<and> yb r < yt r)"

text \<open>
  The invariant of the grid rectangles (leftIdx < rightIdx and bottomIdx < topIdx).
\<close>

definition proper_RI :: "RI list \<Rightarrow> bool" where
  "proper_RI RIv \<longleftrightarrow> (\<forall>q\<in>set RIv. ixl q < ixr q \<and> iyb q < iyt q)"

text \<open>
  The full bounding window on which \<open>main\<close> calls \<open>solve\<close> and \<open>recon\<close>.
\<close>

definition root_window :: "Rect list \<Rightarrow> Key" where
  "root_window R = (0, int (length (compress_xs R)) - 1, 0, int (length (compress_ys R)) - 1)"

text \<open>
  A rectangle lies inside a window: in grid indices, which is the containment test of
  \<open>windowHasAnyRect\<close>, and in the coordinates the grid lines stand for.
\<close>

definition lies_inside :: "Rect list \<Rightarrow> nat \<Rightarrow> Key \<Rightarrow> bool" where
  "lies_inside R rid k =
     (case k of (xi, xj, yk, yl) \<Rightarrow>
        let q = index_all R ! rid; r = R ! rid
        in xi \<le> ixl q \<and> ixr q \<le> xj \<and> yk \<le> iyb q \<and> iyt q \<le> yl \<and>
           compress_xs R ! nat xi \<le> xl r \<and> xr r \<le> compress_xs R ! nat xj \<and>
           compress_ys R ! nat yk \<le> yb r \<and> yt r \<le> compress_ys R ! nat yl)"

text \<open>
  Two grid rectangles are separated by a grid line.
\<close>

definition grid_disjoint :: "RI \<Rightarrow> RI \<Rightarrow> bool" where
  "grid_disjoint a b \<longleftrightarrow>
     ixr a \<le> ixl b \<or> ixr b \<le> ixl a \<or> iyt a \<le> iyb b \<or> iyt b \<le> iyb a"

text \<open>
  The number of well-formed grid rectangles inside a window; it bounds the value of the
  window.
\<close>

definition inside_count :: "RI list \<Rightarrow> int \<Rightarrow> int \<Rightarrow> int \<Rightarrow> int \<Rightarrow> nat" where
  "inside_count RIv xi xj yk yl =
     length (filter (\<lambda>q. ixl q < ixr q \<and> iyb q < iyt q \<and>
                         xi \<le> ixl q \<and> ixr q \<le> xj \<and> yk \<le> iyb q \<and> iyt q \<le> yl) RIv)"

text \<open>
  The scenario of the specification: R0 = (0,0,2,2), R1 = (1,1,3,3), R2 = (0,2,2,4).
\<close>

definition scenario :: "Rect list" where
  "scenario = [\<lparr>xl = 0, yb = 0, xr = 2, yt = 2\<rparr>, \<lparr>xl = 1, yb = 1, xr = 3, yt = 3\<rparr>,
               \<lparr>xl = 0, yb = 2, xr = 2, yt = 4\<rparr>]"

subsection \<open>The answer of a window and its candidates\<close>

text \<open>
  The answer \<open>solve\<close> gives for a window when it starts on the empty table. On every
  table reached in a run \<open>solve\<close> returns this same answer (lemma \<open>solve_reachable\<close>).
\<close>

definition solve0 :: "RI list \<Rightarrow> int \<Rightarrow> int \<Rightarrow> int \<Rightarrow> int \<Rightarrow> Answer" where
  "solve0 RIv xi xj yk yl = fst (solve RIv Map.empty xi xj yk yl)"

text \<open>
  The comparison \<^verbatim>\<open>if (v > best.val) best = ...\<close> of both loops, and the candidates it
  is applied to: the leaf for rectangle \<open>rid\<close>, the vertical cut at column \<open>c\<close>, the
  horizontal cut at row \<open>c\<close>.
\<close>

definition improve :: "Answer \<Rightarrow> Answer \<Rightarrow> Answer" where
  "improve cand best = (if val cand > val best then cand else best)"

definition leaf_cand :: "nat \<Rightarrow> Answer" where
  "leaf_cand rid = \<lparr>val = 1, ch = \<lparr>type = 1, param = int rid\<rparr>\<rparr>"

definition vcand :: "RI list \<Rightarrow> int \<Rightarrow> int \<Rightarrow> int \<Rightarrow> int \<Rightarrow> int \<Rightarrow> Answer" where
  "vcand RIv xi xj yk yl c =
     \<lparr>val = val (solve0 RIv xi c yk yl) + val (solve0 RIv c xj yk yl),
      ch = \<lparr>type = 2, param = c\<rparr>\<rparr>"

definition hcand :: "RI list \<Rightarrow> int \<Rightarrow> int \<Rightarrow> int \<Rightarrow> int \<Rightarrow> int \<Rightarrow> Answer" where
  "hcand RIv xi xj yk yl c =
     \<lparr>val = val (solve0 RIv xi xj yk c) + val (solve0 RIv xi xj c yl),
      ch = \<lparr>type = 3, param = c\<rparr>\<rparr>"

definition vstep :: "RI list \<Rightarrow> int \<Rightarrow> int \<Rightarrow> int \<Rightarrow> int \<Rightarrow> int \<Rightarrow> Answer \<Rightarrow> Answer" where
  "vstep RIv xi xj yk yl c best = improve (vcand RIv xi xj yk yl c) best"

definition hstep :: "RI list \<Rightarrow> int \<Rightarrow> int \<Rightarrow> int \<Rightarrow> int \<Rightarrow> int \<Rightarrow> Answer \<Rightarrow> Answer" where
  "hstep RIv xi xj yk yl c best = improve (hcand RIv xi xj yk yl c) best"

text \<open>
  What \<open>solve\<close> computes for a window that is neither degenerate, nor in the table, nor
  pruned: the leaf option, then the loop over the vertical cuts, then the loop over the
  horizontal cuts.
\<close>

definition cut_search :: "RI list \<Rightarrow> int \<Rightarrow> int \<Rightarrow> int \<Rightarrow> int \<Rightarrow> Answer" where
  "cut_search RIv xi xj yk yl =
     fold (hstep RIv xi xj yk yl) [yk + 1..yl - 1]
       (fold (vstep RIv xi xj yk yl) [xi + 1..xj - 1] (leaf_option RIv xi xj yk yl))"

text \<open>
  The candidates of a window in the order the code meets them: the exactly matching
  rectangles by increasing index, the vertical cuts by increasing column, the horizontal
  cuts by increasing row.
\<close>

definition candidates :: "RI list \<Rightarrow> int \<Rightarrow> int \<Rightarrow> int \<Rightarrow> int \<Rightarrow> Answer list" where
  "candidates RIv xi xj yk yl =
     map leaf_cand (filter (\<lambda>rid. exactMatch RIv rid xi xj yk yl) [0..<length RIv]) @
     map (vcand RIv xi xj yk yl) [xi + 1..xj - 1] @
     map (hcand RIv xi xj yk yl) [yk + 1..yl - 1]"

text \<open>
  \<open>r\<close> is the earliest element of maximal value of the list \<open>cs\<close>: it stands at some
  position, no element has a greater value, and every element before that position has
  a strictly smaller value.
\<close>

definition first_max :: "Answer list \<Rightarrow> Answer \<Rightarrow> bool" where
  "first_max cs r \<longleftrightarrow>
     (\<exists>i<length cs. cs ! i = r \<and> (\<forall>j<length cs. val (cs ! j) \<le> val r) \<and>
        (\<forall>j<i. val (cs ! j) < val r))"

text \<open>
  The forms an answer can take: (0, none); a leaf for a rectangle that matches the window
  exactly; a cut strictly inside the window whose value, at least 1, is the sum of the
  values of its two parts.
\<close>

definition answer_shape :: "RI list \<Rightarrow> int \<Rightarrow> int \<Rightarrow> int \<Rightarrow> int \<Rightarrow> Answer \<Rightarrow> bool" where
  "answer_shape RIv xi xj yk yl a \<longleftrightarrow>
     a = Answer0 \<or>
     (\<exists>rid<length RIv. a = leaf_cand rid \<and> exactMatch RIv rid xi xj yk yl) \<or>
     (\<exists>c. xi < c \<and> c < xj \<and> a = vcand RIv xi xj yk yl c \<and> 1 \<le> val a) \<or>
     (\<exists>c. yk < c \<and> c < yl \<and> a = hcand RIv xi xj yk yl c \<and> 1 \<le> val a)"

subsection \<open>Tables\<close>

text \<open>
  The tables of a run: the empty table \<open>main\<close> starts with, and the table any call of
  \<open>solve\<close> leaves when started on such a table. Inside \<open>solve\<close> every recursive call
  starts on the table the previous call left, so these are the tables a run goes through
  (lemmas \<open>reachable_vcuts\<close> and \<open>reachable_hcuts\<close> for the two loops).
\<close>

inductive reachable_memo :: "RI list \<Rightarrow> Memo \<Rightarrow> bool" for RIv :: "RI list" where
  start: "reachable_memo RIv Map.empty"
| step: "reachable_memo RIv m \<Longrightarrow> reachable_memo RIv (snd (solve RIv m xi xj yk yl))"

text \<open>
  The invariant of the table: an entry belongs to a non-degenerate window, holds the
  answer of that window, and both parts of a stored cut have entries.
\<close>

definition memo_inv :: "RI list \<Rightarrow> Memo \<Rightarrow> bool" where
  "memo_inv RIv m \<longleftrightarrow>
     (\<forall>xi xj yk yl a. m (xi, xj, yk, yl) = Some a \<longrightarrow>
        xi < xj \<and> yk < yl \<and> a = solve0 RIv xi xj yk yl \<and>
        (type (ch a) = 2 \<longrightarrow>
           m (xi, param (ch a), yk, yl) \<noteq> None \<and> m (param (ch a), xj, yk, yl) \<noteq> None) \<and>
        (type (ch a) = 3 \<longrightarrow>
           m (xi, xj, yk, param (ch a)) \<noteq> None \<and> m (xi, xj, param (ch a), yl) \<noteq> None))"

text \<open>
  \<open>solve\<close> on a window keeps the invariant, returns the answer of the window, only adds
  to the table and leaves an entry for the window.
\<close>

definition solve_ok :: "RI list \<Rightarrow> int \<Rightarrow> int \<Rightarrow> int \<Rightarrow> int \<Rightarrow> bool" where
  "solve_ok RIv xi xj yk yl \<longleftrightarrow>
     (\<forall>m. memo_inv RIv m \<longrightarrow>
        (\<exists>m'. solve RIv m xi xj yk yl = (solve0 RIv xi xj yk yl, m') \<and>
              memo_inv RIv m' \<and> m \<subseteq>\<^sub>m m' \<and>
              (xi < xj \<and> yk < yl \<longrightarrow> m' (xi, xj, yk, yl) \<noteq> None)))"

subsection \<open>Reconstruction\<close>

text \<open>
  The windows on which \<open>recon\<close>, started on the first window, is invoked: the window
  itself and, when its entry has a non-zero value and is a cut, the windows reached from
  the two parts of the cut.
\<close>

inductive recon_visits :: "Memo \<Rightarrow> Key \<Rightarrow> Key \<Rightarrow> bool" for memo :: Memo where
  here: "recon_visits memo k k"
| vleft: "memo (xi, xj, yk, yl) = Some A \<Longrightarrow> val A \<noteq> 0 \<Longrightarrow> type (ch A) \<noteq> 1 \<Longrightarrow> type (ch A) = 2 \<Longrightarrow>
          recon_visits memo (xi, param (ch A), yk, yl) k \<Longrightarrow> recon_visits memo (xi, xj, yk, yl) k"
| vright: "memo (xi, xj, yk, yl) = Some A \<Longrightarrow> val A \<noteq> 0 \<Longrightarrow> type (ch A) \<noteq> 1 \<Longrightarrow> type (ch A) = 2 \<Longrightarrow>
          recon_visits memo (param (ch A), xj, yk, yl) k \<Longrightarrow> recon_visits memo (xi, xj, yk, yl) k"
| hbottom: "memo (xi, xj, yk, yl) = Some A \<Longrightarrow> val A \<noteq> 0 \<Longrightarrow> type (ch A) \<noteq> 1 \<Longrightarrow> type (ch A) \<noteq> 2 \<Longrightarrow>
          type (ch A) = 3 \<Longrightarrow>
          recon_visits memo (xi, xj, yk, param (ch A)) k \<Longrightarrow> recon_visits memo (xi, xj, yk, yl) k"
| htop: "memo (xi, xj, yk, yl) = Some A \<Longrightarrow> val A \<noteq> 0 \<Longrightarrow> type (ch A) \<noteq> 1 \<Longrightarrow> type (ch A) \<noteq> 2 \<Longrightarrow>
          type (ch A) = 3 \<Longrightarrow>
          recon_visits memo (xi, xj, param (ch A), yl) k \<Longrightarrow> recon_visits memo (xi, xj, yk, yl) k"

text \<open>
  The id \<open>rid\<close> is named by a stored leaf inside the window, for a rectangle that matches
  the leaf's window exactly.
\<close>

definition leaf_in :: "RI list \<Rightarrow> Memo \<Rightarrow> int \<Rightarrow> int \<Rightarrow> int \<Rightarrow> int \<Rightarrow> int \<Rightarrow> bool" where
  "leaf_in RIv m xi xj yk yl rid \<longleftrightarrow>
     0 \<le> rid \<and> nat rid < length RIv \<and>
     (\<exists>xi' xj' yk' yl'. xi \<le> xi' \<and> xi' < xj' \<and> xj' \<le> xj \<and> yk \<le> yk' \<and> yk' < yl' \<and> yl' \<le> yl \<and>
        m (xi', xj', yk', yl') = Some \<lparr>val = 1, ch = \<lparr>type = 1, param = rid\<rparr>\<rparr> \<and>
        exactMatch RIv (nat rid) xi' xj' yk' yl')"

text \<open>
  What a list of ids reconstructed for a window satisfies.
\<close>

definition recon_good :: "RI list \<Rightarrow> Memo \<Rightarrow> int \<Rightarrow> int \<Rightarrow> int \<Rightarrow> int \<Rightarrow> int list \<Rightarrow> bool" where
  "recon_good RIv m xi xj yk yl ids \<longleftrightarrow>
     int (length ids) = val (solve0 RIv xi xj yk yl) \<and>
     distinct ids \<and>
     (\<forall>rid\<in>set ids. leaf_in RIv m xi xj yk yl rid) \<and>
     (\<forall>a\<in>set ids. \<forall>b\<in>set ids. a \<noteq> b \<longrightarrow> grid_disjoint (RIv ! nat a) (RIv ! nat b))"

subsection \<open>Input\<close>

text \<open>
  Reading \<open>k\<close> records without the check of their bounds.
\<close>

fun extract_records :: "nat \<Rightarrow> string \<Rightarrow> (Rect list \<times> string) option" where
  "extract_records 0 s = Some ([], s)"
| "extract_records (Suc k) s =
     (case extract4 s of
        None \<Rightarrow> None
      | Some (r, s') \<Rightarrow>
          (case extract_records k s' of None \<Rightarrow> None | Some (rs, s'') \<Rightarrow> Some (r # rs, s'')))"

text \<open>
  The input from which \<open>main\<close> prints a solution when memory suffices: n is extracted
  and positive, the n records are extracted, and each has xl < xr and yb < yt.
\<close>

definition input_ok :: "string \<Rightarrow> Rect list \<Rightarrow> bool" where
  "input_ok s R \<longleftrightarrow>
     (\<exists>n s0 s1. extract_int s = Some (n, s0) \<and> 0 < n \<and>
        extract_records (nat n) s0 = Some (R, s1) \<and> (\<forall>r\<in>set R. ordered r))"

text \<open>
  What \<open>extract_num\<close> accepts, said without the scanning functions: the text is white
  space, then an optional sign, then digits, then a rest that is empty or starts with a
  character that is not a digit; the value read is that of the digits, negated after a
  minus sign, and lies within the bounds of the type; the rest stays in the stream.
\<close>

definition reads_as :: "int \<Rightarrow> int \<Rightarrow> string \<Rightarrow> int \<Rightarrow> string \<Rightarrow> bool" where
  "reads_as lo hi s v rest \<longleftrightarrow>
     (\<exists>ws sg ds. s = ws @ sg @ ds @ rest \<and> list_all is_space ws \<and>
        (sg = [] \<or> sg = ''+'' \<or> sg = ''-'') \<and> ds \<noteq> [] \<and> list_all is_digit ds \<and>
        (rest = [] \<or> \<not> is_digit (hd rest)) \<and>
        v = (if sg = ''-'' then - digits_value ds else digits_value ds) \<and> lo \<le> v \<and> v \<le> hi)"

text \<open>A machine on which memory never runs out.\<close>

definition roomy :: env where
  "roomy = \<lparr>can_alloc = (\<lambda>n. True), engine_crash = (\<lambda>R. None)\<rparr>"

text \<open>
  A machine on which the vector of line 40 cannot be allocated for 2147483647 rectangles
  (64 GiB), and nothing else fails.
\<close>

definition cramped :: env where
  "cramped = \<lparr>can_alloc = (\<lambda>n. n < 2147483647), engine_crash = (\<lambda>R. None)\<rparr>"

text \<open>
  The tokens of a text in the sense of the specification of the input format: the maximal
  runs of characters other than white space; and the numeric ones among them, an optional
  sign followed by digits.
\<close>

fun tokens_from :: "string \<Rightarrow> string \<Rightarrow> string list" where
  "tokens_from cur [] = (if cur = [] then [] else [cur])"
| "tokens_from cur (c # cs) =
     (if is_space c then (if cur = [] then tokens_from [] cs else cur # tokens_from [] cs)
      else tokens_from (cur @ [c]) cs)"

definition tokens :: "string \<Rightarrow> string list" where
  "tokens s = tokens_from [] s"

definition numeric_token :: "string \<Rightarrow> bool" where
  "numeric_token t \<longleftrightarrow>
     (let b = (if t \<noteq> [] \<and> (hd t = CHR ''-'' \<or> hd t = CHR ''+'') then tl t else t)
      in b \<noteq> [] \<and> list_all is_digit b)"

section \<open>The scan that keeps the first maximum\<close>

text \<open>
  Both loops, and the leaf loop before them, apply \<open>improve\<close> from left to right; the
  result is the earliest element of maximal value of the list they run over, the start
  value first.
\<close>

lemma first_max_snoc:
  assumes "first_max xs r"
  shows "first_max (xs @ [c]) (improve c r)"
proof -
  from assms obtain i where i: "i < length xs" "xs ! i = r"
    "\<forall>j<length xs. val (xs ! j) \<le> val r" "\<forall>j<i. val (xs ! j) < val r"
    unfolding first_max_def by blast
  show ?thesis
  proof (cases "val c > val r")
    case True
    have "\<forall>j<length (xs @ [c]). val ((xs @ [c]) ! j) \<le> val c"
      using i(3) True by (auto simp: nth_append less_Suc_eq)
    moreover have "\<forall>j<length xs. val ((xs @ [c]) ! j) < val c"
      using i(3) True by (auto simp: nth_append)
    ultimately show ?thesis
      unfolding first_max_def using True
      by (intro exI[of _ "length xs"]) (simp add: improve_def)
  next
    case False
    have "\<forall>j<length (xs @ [c]). val ((xs @ [c]) ! j) \<le> val r"
      using i(3) False by (auto simp: nth_append less_Suc_eq)
    moreover have "\<forall>j<i. val ((xs @ [c]) ! j) < val r"
      using i(1,4) by (auto simp: nth_append)
    moreover have "(xs @ [c]) ! i = r" using i(1,2) by (simp add: nth_append)
    ultimately show ?thesis
      unfolding first_max_def using False i(1)
      by (intro exI[of _ i]) (simp add: improve_def)
  qed
qed

lemma first_max_fold_improve: "first_max (b # cs) (fold improve cs b)"
proof (induction cs rule: rev_induct)
  case Nil
  then show ?case by (simp add: first_max_def)
next
  case (snoc c cs)
  from first_max_snoc[OF snoc, of c] show ?case by simp
qed

lemma first_max_cases:
  assumes "first_max (b # cs) r"
  shows "r = b \<or> (r \<in> set cs \<and> val b < val r)"
proof -
  from assms obtain i where i: "i < length (b # cs)" "(b # cs) ! i = r"
    "\<forall>j<i. val ((b # cs) ! j) < val r"
    unfolding first_max_def by blast
  show ?thesis
  proof (cases i)
    case 0
    then show ?thesis using i(2) by simp
  next
    case (Suc k)
    then have "r \<in> set cs" using i(1,2) by auto
    moreover have "val b < val r" using i(3) Suc by auto
    ultimately show ?thesis by simp
  qed
qed

lemma first_max_ge:
  assumes "first_max cs r" "a \<in> set cs"
  shows "val a \<le> val r"
  using assms unfolding first_max_def by (metis in_set_conv_nth)

lemma first_max_tail:
  assumes "first_max (b # cs) r" "val b < val r"
  shows "first_max cs r"
proof -
  from assms(1) obtain i where i: "i < length (b # cs)" "(b # cs) ! i = r"
    "\<forall>j<length (b # cs). val ((b # cs) ! j) \<le> val r" "\<forall>j<i. val ((b # cs) ! j) < val r"
    unfolding first_max_def by blast
  from i(2) assms(2) obtain k where k: "i = Suc k" by (cases i) auto
  have 1: "k < length cs" "cs ! k = r" using i(1,2) k by simp_all
  have 2: "\<forall>j<length cs. val (cs ! j) \<le> val r"
  proof (intro allI impI)
    fix j assume "j < length cs"
    then have "Suc j < length (b # cs)" by simp
    with i(3) have "val ((b # cs) ! Suc j) \<le> val r" by blast
    then show "val (cs ! j) \<le> val r" by simp
  qed
  have 3: "\<forall>j<k. val (cs ! j) < val r"
  proof (intro allI impI)
    fix j assume "j < k"
    then have "Suc j < i" using k by simp
    with i(4) have "val ((b # cs) ! Suc j) < val r" by blast
    then show "val (cs ! j) < val r" by simp
  qed
  show ?thesis unfolding first_max_def using 1 2 3 by blast
qed

lemma leaf_option_fold:
  "leaf_option RIv xi xj yk yl =
     fold improve (map leaf_cand (filter (\<lambda>rid. exactMatch RIv rid xi xj yk yl) [0..<length RIv])) Answer0"
proof -
  have gen: "(case List.find P rs of None \<Rightarrow> Answer0
               | Some rid \<Rightarrow> \<lparr>val = 1, ch = \<lparr>type = 1, param = int rid\<rparr>\<rparr>) =
        fold improve (map leaf_cand (filter P rs)) Answer0" for P and rs :: "nat list"
  proof (induction rs)
    case Nil
    then show ?case by simp
  next
    case (Cons r rs)
    have keep: "fold improve (map leaf_cand zs) (leaf_cand r) = leaf_cand r" for zs
      by (induction zs) (simp_all add: improve_def leaf_cand_def)
    have first: "improve (leaf_cand r) Answer0 = leaf_cand r"
      by (simp add: improve_def leaf_cand_def Answer0_def)
    show ?case
    proof (cases "P r")
      case True
      then show ?thesis by (simp add: keep first) (simp add: leaf_cand_def)
    next
      case False
      then show ?thesis using Cons by simp
    qed
  qed
  show ?thesis unfolding leaf_option_def
    by (rule gen[of "\<lambda>rid. exactMatch RIv rid xi xj yk yl" "[0..<length RIv]"])
qed

lemma vstep_fold: "fold (vstep RIv xi xj yk yl) cs b = fold improve (map (vcand RIv xi xj yk yl) cs) b"
  by (induction cs arbitrary: b) (simp_all add: vstep_def)

lemma hstep_fold: "fold (hstep RIv xi xj yk yl) cs b = fold improve (map (hcand RIv xi xj yk yl) cs) b"
  by (induction cs arbitrary: b) (simp_all add: hstep_def)

lemma cut_search_candidates:
  "cut_search RIv xi xj yk yl = fold improve (candidates RIv xi xj yk yl) Answer0"
  by (simp add: cut_search_def candidates_def vstep_fold hstep_fold leaf_option_fold)

lemma cut_search_first_max:
  "first_max (Answer0 # candidates RIv xi xj yk yl) (cut_search RIv xi xj yk yl)"
  unfolding cut_search_candidates by (rule first_max_fold_improve)

lemma cand_le_cut_search:
  "a \<in> set (candidates RIv xi xj yk yl) \<Longrightarrow> val a \<le> val (cut_search RIv xi xj yk yl)"
  using first_max_ge[OF cut_search_first_max] by simp

lemma cut_search_shape: "answer_shape RIv xi xj yk yl (cut_search RIv xi xj yk yl)"
proof -
  let ?r = "cut_search RIv xi xj yk yl"
  from first_max_cases[OF cut_search_first_max]
  consider "?r = Answer0" | "?r \<in> set (candidates RIv xi xj yk yl)" "val Answer0 < val ?r"
    by blast
  then show ?thesis
  proof cases
    case 1
    then show ?thesis by (simp add: answer_shape_def)
  next
    case 2
    from 2(2) have pos: "1 \<le> val ?r" by (simp add: Answer0_def)
    from 2(1) consider
        (L) rid where "rid \<in> set [0..<length RIv]" "exactMatch RIv rid xi xj yk yl" "?r = leaf_cand rid"
      | (V) c where "c \<in> set [xi + 1..xj - 1]" "?r = vcand RIv xi xj yk yl c"
      | (H) c where "c \<in> set [yk + 1..yl - 1]" "?r = hcand RIv xi xj yk yl c"
      unfolding candidates_def set_append set_map set_filter by blast
    then show ?thesis
    proof cases
      case L
      then have "rid < length RIv" by simp
      then show ?thesis using L(2,3) unfolding answer_shape_def by blast
    next
      case V
      then have "xi < c" "c < xj" by simp_all
      then show ?thesis using V(2) pos unfolding answer_shape_def by metis
    next
      case H
      then have "yk < c" "c < yl" by simp_all
      then show ?thesis using H(2) pos unfolding answer_shape_def by metis
    qed
  qed
qed

lemma answer_shape_vcut:
  assumes "answer_shape RIv xi xj yk yl a" "type (ch a) = 2"
  shows "xi < param (ch a) \<and> param (ch a) < xj \<and> a = vcand RIv xi xj yk yl (param (ch a)) \<and> 1 \<le> val a"
  using assms unfolding answer_shape_def
  by (auto simp: Answer0_def leaf_cand_def vcand_def hcand_def)

lemma answer_shape_hcut:
  assumes "answer_shape RIv xi xj yk yl a" "type (ch a) = 3"
  shows "yk < param (ch a) \<and> param (ch a) < yl \<and> a = hcand RIv xi xj yk yl (param (ch a)) \<and> 1 \<le> val a"
  using assms unfolding answer_shape_def
  by (auto simp: Answer0_def leaf_cand_def vcand_def hcand_def)

section \<open>Memoisation is transparent\<close>

text \<open>
  By induction on the size of the window: on a table that satisfies the invariant,
  \<open>solve\<close> returns the answer of the window and leaves a table that satisfies the
  invariant, extends the old one and has an entry for the window. The loops are treated
  first, under the assumption that the statement holds for the parts of every cut.
\<close>

lemma memo_inv_empty: "memo_inv RIv Map.empty"
  by (simp add: memo_inv_def)

lemma map_le_not_None: "m \<subseteq>\<^sub>m m' \<Longrightarrow> m k \<noteq> None \<Longrightarrow> m' k \<noteq> None"
  by (metis domIff map_le_def)

lemma map_le_upd_same:
  assumes "m k = None \<or> m k = Some a"
  shows "m \<subseteq>\<^sub>m m(k \<mapsto> a)"
  using assms by (auto simp: map_le_def)

lemma memo_inv_solve0:
  "memo_inv RIv m \<Longrightarrow> m (xi, xj, yk, yl) = Some a \<Longrightarrow> a = solve0 RIv xi xj yk yl"
  unfolding memo_inv_def by blast

lemma memo_inv_upd:
  assumes inv: "memo_inv RIv m" and nd: "xi < xj" "yk < yl"
    and a: "a = solve0 RIv xi xj yk yl"
    and v: "type (ch a) = 2 \<Longrightarrow>
              m (xi, param (ch a), yk, yl) \<noteq> None \<and> m (param (ch a), xj, yk, yl) \<noteq> None"
    and h: "type (ch a) = 3 \<Longrightarrow>
              m (xi, xj, yk, param (ch a)) \<noteq> None \<and> m (xi, xj, param (ch a), yl) \<noteq> None"
  shows "memo_inv RIv (m((xi, xj, yk, yl) \<mapsto> a))"
  unfolding memo_inv_def
proof (intro allI impI)
  fix xi' xj' yk' yl' a'
  assume s: "(m((xi, xj, yk, yl) \<mapsto> a)) (xi', xj', yk', yl') = Some a'"
  show "xi' < xj' \<and> yk' < yl' \<and> a' = solve0 RIv xi' xj' yk' yl' \<and>
        (type (ch a') = 2 \<longrightarrow>
           (m((xi, xj, yk, yl) \<mapsto> a)) (xi', param (ch a'), yk', yl') \<noteq> None \<and>
           (m((xi, xj, yk, yl) \<mapsto> a)) (param (ch a'), xj', yk', yl') \<noteq> None) \<and>
        (type (ch a') = 3 \<longrightarrow>
           (m((xi, xj, yk, yl) \<mapsto> a)) (xi', xj', yk', param (ch a')) \<noteq> None \<and>
           (m((xi, xj, yk, yl) \<mapsto> a)) (xi', xj', param (ch a'), yl') \<noteq> None)"
  proof (cases "(xi', xj', yk', yl') = (xi, xj, yk, yl)")
    case True
    then have e: "xi' = xi" "xj' = xj" "yk' = yk" "yl' = yl" by simp_all
    have a': "a' = a" using s unfolding e by simp
    have keep: "(m((xi, xj, yk, yl) \<mapsto> a)) k \<noteq> None" if "m k \<noteq> None" for k
      using that by simp
    show ?thesis unfolding e a' using nd a v h keep by blast
  next
    case False
    then have "m (xi', xj', yk', yl') = Some a'" using s by (simp split: if_splits)
    with inv have old: "xi' < xj'" "yk' < yl'" "a' = solve0 RIv xi' xj' yk' yl'"
      "type (ch a') = 2 \<longrightarrow>
         m (xi', param (ch a'), yk', yl') \<noteq> None \<and> m (param (ch a'), xj', yk', yl') \<noteq> None"
      "type (ch a') = 3 \<longrightarrow>
         m (xi', xj', yk', param (ch a')) \<noteq> None \<and> m (xi', xj', param (ch a'), yl') \<noteq> None"
      unfolding memo_inv_def by blast+
    have keep: "(m((xi, xj, yk, yl) \<mapsto> a)) k \<noteq> None" if "m k \<noteq> None" for k
      using that by simp
    show ?thesis using old keep by blast
  qed
qed

lemma vcuts_loop:
  assumes sub: "\<And>c. xi < c \<Longrightarrow> c < xj \<Longrightarrow> solve_ok RIv xi c yk yl \<and> solve_ok RIv c xj yk yl"
    and y: "yk < yl"
  shows "xi < c \<Longrightarrow> memo_inv RIv m \<Longrightarrow>
     \<exists>m'. vcuts RIv m xi xj yk yl c best = (fold (vstep RIv xi xj yk yl) [c..xj - 1] best, m') \<and>
          memo_inv RIv m' \<and> m \<subseteq>\<^sub>m m' \<and>
          (\<forall>c'. c \<le> c' \<and> c' < xj \<longrightarrow> m' (xi, c', yk, yl) \<noteq> None \<and> m' (c', xj, yk, yl) \<noteq> None)"
proof (induction "nat (xj - c)" arbitrary: c m best)
  case 0
  then have "\<not> c \<le> xj - 1" by simp
  then show ?case using 0 by (auto simp add: vcuts.simps)
next
  case (Suc n)
  then have c: "c \<le> xj - 1" "xi < c" "c < xj" by simp_all
  from sub[OF c(2,3)] have okL: "solve_ok RIv xi c yk yl" and okR: "solve_ok RIv c xj yk yl"
    by simp_all
  from okL Suc.prems(2) obtain m1 where m1:
    "solve RIv m xi c yk yl = (solve0 RIv xi c yk yl, m1)" "memo_inv RIv m1" "m \<subseteq>\<^sub>m m1"
    "m1 (xi, c, yk, yl) \<noteq> None"
    unfolding solve_ok_def using c y by blast
  from okR m1(2) obtain m2 where m2:
    "solve RIv m1 c xj yk yl = (solve0 RIv c xj yk yl, m2)" "memo_inv RIv m2" "m1 \<subseteq>\<^sub>m m2"
    "m2 (c, xj, yk, yl) \<noteq> None"
    unfolding solve_ok_def using c y by blast
  have n: "n = nat (xj - (c + 1))" using Suc.hyps(2) by simp
  have c1: "xi < c + 1" using c by simp
  from Suc.hyps(1)[OF n c1 m2(2), of "vstep RIv xi xj yk yl c best"] obtain m' where m':
    "vcuts RIv m2 xi xj yk yl (c + 1) (vstep RIv xi xj yk yl c best) =
       (fold (vstep RIv xi xj yk yl) [c + 1..xj - 1] (vstep RIv xi xj yk yl c best), m')"
    "memo_inv RIv m'" "m2 \<subseteq>\<^sub>m m'"
    "\<forall>c'. c + 1 \<le> c' \<and> c' < xj \<longrightarrow> m' (xi, c', yk, yl) \<noteq> None \<and> m' (c', xj, yk, yl) \<noteq> None"
    by blast
  have up: "[c..xj - 1] = c # [c + 1..xj - 1]" using c by (simp add: upto_rec1)
  have eq: "vcuts RIv m xi xj yk yl c best =
       (fold (vstep RIv xi xj yk yl) [c..xj - 1] best, m')"
    using c(1) m1(1) m2(1) m'(1) unfolding up
    by (subst vcuts.simps) (simp add: vstep_def vcand_def improve_def Let_def)
  have le: "m \<subseteq>\<^sub>m m'" using m1(3) m2(3) m'(3) by (blast intro: map_le_trans)
  have cov: "m' (xi, c', yk, yl) \<noteq> None \<and> m' (c', xj, yk, yl) \<noteq> None" if "c \<le> c'" "c' < xj" for c'
  proof (cases "c' = c")
    case True
    have "m2 (xi, c, yk, yl) \<noteq> None" using m1(4) m2(3) by (rule map_le_not_None[rotated])
    then show ?thesis using m2(4) m'(3) True by (metis map_le_not_None)
  next
    case False
    then show ?thesis using that m'(4) by simp
  qed
  show ?case using eq m'(2) le cov by blast
qed

lemma hcuts_loop:
  assumes sub: "\<And>c. yk < c \<Longrightarrow> c < yl \<Longrightarrow> solve_ok RIv xi xj yk c \<and> solve_ok RIv xi xj c yl"
    and y: "xi < xj"
  shows "yk < c \<Longrightarrow> memo_inv RIv m \<Longrightarrow>
     \<exists>m'. hcuts RIv m xi xj yk yl c best = (fold (hstep RIv xi xj yk yl) [c..yl - 1] best, m') \<and>
          memo_inv RIv m' \<and> m \<subseteq>\<^sub>m m' \<and>
          (\<forall>c'. c \<le> c' \<and> c' < yl \<longrightarrow> m' (xi, xj, yk, c') \<noteq> None \<and> m' (xi, xj, c', yl) \<noteq> None)"
proof (induction "nat (yl - c)" arbitrary: c m best)
  case 0
  then have "\<not> c \<le> yl - 1" by simp
  then show ?case using 0 by (auto simp add: hcuts.simps)
next
  case (Suc n)
  then have c: "c \<le> yl - 1" "yk < c" "c < yl" by simp_all
  from sub[OF c(2,3)] have okL: "solve_ok RIv xi xj yk c" and okR: "solve_ok RIv xi xj c yl"
    by simp_all
  from okL Suc.prems(2) obtain m1 where m1:
    "solve RIv m xi xj yk c = (solve0 RIv xi xj yk c, m1)" "memo_inv RIv m1" "m \<subseteq>\<^sub>m m1"
    "m1 (xi, xj, yk, c) \<noteq> None"
    unfolding solve_ok_def using c y by blast
  from okR m1(2) obtain m2 where m2:
    "solve RIv m1 xi xj c yl = (solve0 RIv xi xj c yl, m2)" "memo_inv RIv m2" "m1 \<subseteq>\<^sub>m m2"
    "m2 (xi, xj, c, yl) \<noteq> None"
    unfolding solve_ok_def using c y by blast
  have n: "n = nat (yl - (c + 1))" using Suc.hyps(2) by simp
  have c1: "yk < c + 1" using c by simp
  from Suc.hyps(1)[OF n c1 m2(2), of "hstep RIv xi xj yk yl c best"] obtain m' where m':
    "hcuts RIv m2 xi xj yk yl (c + 1) (hstep RIv xi xj yk yl c best) =
       (fold (hstep RIv xi xj yk yl) [c + 1..yl - 1] (hstep RIv xi xj yk yl c best), m')"
    "memo_inv RIv m'" "m2 \<subseteq>\<^sub>m m'"
    "\<forall>c'. c + 1 \<le> c' \<and> c' < yl \<longrightarrow> m' (xi, xj, yk, c') \<noteq> None \<and> m' (xi, xj, c', yl) \<noteq> None"
    by blast
  have up: "[c..yl - 1] = c # [c + 1..yl - 1]" using c by (simp add: upto_rec1)
  have eq: "hcuts RIv m xi xj yk yl c best =
       (fold (hstep RIv xi xj yk yl) [c..yl - 1] best, m')"
    using c(1) m1(1) m2(1) m'(1) unfolding up
    by (subst hcuts.simps) (simp add: hstep_def hcand_def improve_def Let_def)
  have le: "m \<subseteq>\<^sub>m m'" using m1(3) m2(3) m'(3) by (blast intro: map_le_trans)
  have cov: "m' (xi, xj, yk, c') \<noteq> None \<and> m' (xi, xj, c', yl) \<noteq> None" if "c \<le> c'" "c' < yl" for c'
  proof (cases "c' = c")
    case True
    have "m2 (xi, xj, yk, c) \<noteq> None" using m1(4) m2(3) by (rule map_le_not_None[rotated])
    then show ?thesis using m2(4) m'(3) True by (metis map_le_not_None)
  next
    case False
    then show ?thesis using that m'(4) by simp
  qed
  show ?case using eq m'(2) le cov by blast
qed

lemma solve_step:
  assumes subv: "\<And>c. xi < c \<Longrightarrow> c < xj \<Longrightarrow> solve_ok RIv xi c yk yl \<and> solve_ok RIv c xj yk yl"
    and subh: "\<And>c. yk < c \<Longrightarrow> c < yl \<Longrightarrow> solve_ok RIv xi xj yk c \<and> solve_ok RIv xi xj c yl"
    and nd: "xi < xj" "yk < yl"
    and has: "windowHasAnyRect RIv xi xj yk yl"
    and inv: "memo_inv RIv m" and none: "m (xi, xj, yk, yl) = None"
  shows "\<exists>m2. solve RIv m xi xj yk yl =
            (cut_search RIv xi xj yk yl, m2((xi, xj, yk, yl) \<mapsto> cut_search RIv xi xj yk yl)) \<and>
          memo_inv RIv m2 \<and> m \<subseteq>\<^sub>m m2 \<and>
          (\<forall>c. xi < c \<and> c < xj \<longrightarrow> m2 (xi, c, yk, yl) \<noteq> None \<and> m2 (c, xj, yk, yl) \<noteq> None) \<and>
          (\<forall>c. yk < c \<and> c < yl \<longrightarrow> m2 (xi, xj, yk, c) \<noteq> None \<and> m2 (xi, xj, c, yl) \<noteq> None)"
proof -
  let ?b0 = "leaf_option RIv xi xj yk yl"
  let ?b1 = "fold (vstep RIv xi xj yk yl) [xi + 1..xj - 1] ?b0"
  from vcuts_loop[OF subv nd(2), of "xi + 1" m ?b0] inv obtain m1 where m1:
    "vcuts RIv m xi xj yk yl (xi + 1) ?b0 = (?b1, m1)" "memo_inv RIv m1" "m \<subseteq>\<^sub>m m1"
    "\<forall>c'. xi + 1 \<le> c' \<and> c' < xj \<longrightarrow> m1 (xi, c', yk, yl) \<noteq> None \<and> m1 (c', xj, yk, yl) \<noteq> None"
    by auto
  from hcuts_loop[OF subh nd(1), of "yk + 1" m1 ?b1] m1(2) obtain m2 where m2:
    "hcuts RIv m1 xi xj yk yl (yk + 1) ?b1 = (fold (hstep RIv xi xj yk yl) [yk + 1..yl - 1] ?b1, m2)"
    "memo_inv RIv m2" "m1 \<subseteq>\<^sub>m m2"
    "\<forall>c'. yk + 1 \<le> c' \<and> c' < yl \<longrightarrow> m2 (xi, xj, yk, c') \<noteq> None \<and> m2 (xi, xj, c', yl) \<noteq> None"
    by auto
  have eq: "solve RIv m xi xj yk yl =
      (cut_search RIv xi xj yk yl, m2((xi, xj, yk, yl) \<mapsto> cut_search RIv xi xj yk yl))"
    using nd has none m1(1) m2(1)
    by (subst solve.simps) (simp add: cut_search_def)
  have le: "m \<subseteq>\<^sub>m m2" using m1(3) m2(3) by (rule map_le_trans)
  have cv: "m2 (xi, c, yk, yl) \<noteq> None \<and> m2 (c, xj, yk, yl) \<noteq> None" if "xi < c" "c < xj" for c
  proof -
    from that have "xi + 1 \<le> c \<and> c < xj" by simp
    with m1(4) have "m1 (xi, c, yk, yl) \<noteq> None" "m1 (c, xj, yk, yl) \<noteq> None" by simp_all
    then show ?thesis using map_le_not_None[OF m2(3)] by simp
  qed
  have chh: "m2 (xi, xj, yk, c) \<noteq> None \<and> m2 (xi, xj, c, yl) \<noteq> None" if "yk < c" "c < yl" for c
  proof -
    from that have "yk + 1 \<le> c \<and> c < yl" by simp
    with m2(4) show ?thesis by simp
  qed
  show ?thesis using eq m2(2) le cv chh by blast
qed

lemma solve_ok_all: "solve_ok RIv xi xj yk yl"
proof (induction "nat (xj - xi) + nat (yl - yk)" arbitrary: xi xj yk yl rule: less_induct)
  case less
  show ?case
  proof (cases "xi \<ge> xj \<or> yk \<ge> yl")
    case True
    then have "solve RIv m xi xj yk yl = (Answer0, m)" for m
      by (subst solve.simps) simp
    then show ?thesis using True by (auto simp: solve_ok_def solve0_def)
  next
    case False
    then have nd: "xi < xj" "yk < yl" by simp_all
    have subv: "solve_ok RIv xi c yk yl \<and> solve_ok RIv c xj yk yl" if "xi < c" "c < xj" for c
      using that nd by (intro conjI less) simp_all
    have subh: "solve_ok RIv xi xj yk c \<and> solve_ok RIv xi xj c yl" if "yk < c" "c < yl" for c
      using that nd by (intro conjI less) simp_all
    let ?k = "(xi, xj, yk, yl)"
    let ?v = "if windowHasAnyRect RIv xi xj yk yl then cut_search RIv xi xj yk yl else Answer0"
    have fresh: "\<exists>m2. solve RIv m xi xj yk yl = (?v, m2(?k \<mapsto> ?v)) \<and>
          memo_inv RIv m2 \<and> m \<subseteq>\<^sub>m m2 \<and>
          (type (ch ?v) = 2 \<longrightarrow>
             m2 (xi, param (ch ?v), yk, yl) \<noteq> None \<and> m2 (param (ch ?v), xj, yk, yl) \<noteq> None) \<and>
          (type (ch ?v) = 3 \<longrightarrow>
             m2 (xi, xj, yk, param (ch ?v)) \<noteq> None \<and> m2 (xi, xj, param (ch ?v), yl) \<noteq> None)"
      if inv: "memo_inv RIv m" and none: "m ?k = None" for m
    proof (cases "windowHasAnyRect RIv xi xj yk yl")
      case True
      from solve_step[OF subv subh nd True inv none] obtain m2 where m2:
        "solve RIv m xi xj yk yl =
            (cut_search RIv xi xj yk yl, m2(?k \<mapsto> cut_search RIv xi xj yk yl))"
        "memo_inv RIv m2" "m \<subseteq>\<^sub>m m2"
        "\<forall>c. xi < c \<and> c < xj \<longrightarrow> m2 (xi, c, yk, yl) \<noteq> None \<and> m2 (c, xj, yk, yl) \<noteq> None"
        "\<forall>c. yk < c \<and> c < yl \<longrightarrow> m2 (xi, xj, yk, c) \<noteq> None \<and> m2 (xi, xj, c, yl) \<noteq> None"
        by blast
      note sh = cut_search_shape[of RIv xi xj yk yl]
      have v: "type (ch (cut_search RIv xi xj yk yl)) = 2 \<longrightarrow>
             m2 (xi, param (ch (cut_search RIv xi xj yk yl)), yk, yl) \<noteq> None \<and>
             m2 (param (ch (cut_search RIv xi xj yk yl)), xj, yk, yl) \<noteq> None"
        using answer_shape_vcut[OF sh] m2(4) by blast
      have h: "type (ch (cut_search RIv xi xj yk yl)) = 3 \<longrightarrow>
             m2 (xi, xj, yk, param (ch (cut_search RIv xi xj yk yl))) \<noteq> None \<and>
             m2 (xi, xj, param (ch (cut_search RIv xi xj yk yl)), yl) \<noteq> None"
        using answer_shape_hcut[OF sh] m2(5) by blast
      show ?thesis using True m2(1,2,3) v h by (intro exI[of _ m2]) simp
    next
      case False
      have "solve RIv m xi xj yk yl = (Answer0, m(?k \<mapsto> Answer0))"
        using nd none False by (subst solve.simps) simp
      then show ?thesis using False inv by (intro exI[of _ m]) (simp add: Answer0_def)
    qed
    from fresh[OF memo_inv_empty] have s0: "solve0 RIv xi xj yk yl = ?v"
      unfolding solve0_def by force
    show ?thesis unfolding solve_ok_def
    proof (intro allI impI)
      fix m assume inv: "memo_inv RIv m"
      show "\<exists>m'. solve RIv m xi xj yk yl = (solve0 RIv xi xj yk yl, m') \<and>
              memo_inv RIv m' \<and> m \<subseteq>\<^sub>m m' \<and>
              (xi < xj \<and> yk < yl \<longrightarrow> m' (xi, xj, yk, yl) \<noteq> None)"
      proof (cases "m ?k")
        case (Some a)
        then have "a = solve0 RIv xi xj yk yl" using inv by (rule memo_inv_solve0[rotated])
        moreover have "solve RIv m xi xj yk yl = (a, m)"
          using nd Some by (subst solve.simps) simp
        ultimately show ?thesis using inv Some by (intro exI[of _ m]) simp
      next
        case None
        from fresh[OF inv None] obtain m2 where m2:
          "solve RIv m xi xj yk yl = (?v, m2(?k \<mapsto> ?v))" "memo_inv RIv m2" "m \<subseteq>\<^sub>m m2"
          "type (ch ?v) = 2 \<longrightarrow>
             m2 (xi, param (ch ?v), yk, yl) \<noteq> None \<and> m2 (param (ch ?v), xj, yk, yl) \<noteq> None"
          "type (ch ?v) = 3 \<longrightarrow>
             m2 (xi, xj, yk, param (ch ?v)) \<noteq> None \<and> m2 (xi, xj, param (ch ?v), yl) \<noteq> None"
          by blast
        have inv': "memo_inv RIv (m2(?k \<mapsto> ?v))"
          using m2(4,5) by (intro memo_inv_upd[OF m2(2) nd]) (simp_all only: s0 simp_thms)
        have "m2 ?k = None \<or> m2 ?k = Some ?v"
          using memo_inv_solve0[OF m2(2), of xi xj yk yl] s0 by (cases "m2 ?k") simp_all
        then have "m2 \<subseteq>\<^sub>m m2(?k \<mapsto> ?v)" by (rule map_le_upd_same)
        with m2(3) have le: "m \<subseteq>\<^sub>m m2(?k \<mapsto> ?v)" by (rule map_le_trans)
        show ?thesis using m2(1) inv' le s0 by (intro exI[of _ "m2(?k \<mapsto> ?v)"]) simp
      qed
    qed
  qed
qed

lemma solve_inv:
  assumes "memo_inv RIv m"
  shows "\<exists>m'. solve RIv m xi xj yk yl = (solve0 RIv xi xj yk yl, m') \<and>
              memo_inv RIv m' \<and> m \<subseteq>\<^sub>m m' \<and>
              (xi < xj \<and> yk < yl \<longrightarrow> m' (xi, xj, yk, yl) \<noteq> None)"
  using solve_ok_all[of RIv xi xj yk yl] assms unfolding solve_ok_def by blast

lemma solve0_unfold:
  "solve0 RIv xi xj yk yl =
     (if xi \<ge> xj \<or> yk \<ge> yl then Answer0
      else if windowHasAnyRect RIv xi xj yk yl then cut_search RIv xi xj yk yl else Answer0)"
proof (cases "xi \<ge> xj \<or> yk \<ge> yl")
  case True
  then show ?thesis unfolding solve0_def by (subst solve.simps) simp
next
  case False
  then have nd: "xi < xj" "yk < yl" by simp_all
  show ?thesis
  proof (cases "windowHasAnyRect RIv xi xj yk yl")
    case True
    have "\<exists>m2. solve RIv Map.empty xi xj yk yl =
            (cut_search RIv xi xj yk yl, m2((xi, xj, yk, yl) \<mapsto> cut_search RIv xi xj yk yl))"
      using solve_step[OF conjI[OF solve_ok_all solve_ok_all] conjI[OF solve_ok_all solve_ok_all]
                nd True memo_inv_empty] by blast
    then show ?thesis using nd True unfolding solve0_def by force
  next
    case False
    then show ?thesis using nd unfolding solve0_def by (subst solve.simps) simp
  qed
qed

lemma solve0_shape: "answer_shape RIv xi xj yk yl (solve0 RIv xi xj yk yl)"
  using cut_search_shape[of RIv xi xj yk yl]
  by (simp add: solve0_unfold) (simp add: answer_shape_def)

lemma memo_leaf_exact:
  assumes inv: "memo_inv RIv m" and a: "m (xi, xj, yk, yl) = Some a" and t: "type (ch a) = 1"
  shows "0 \<le> param (ch a) \<and> nat (param (ch a)) < length RIv \<and>
         exactMatch RIv (nat (param (ch a))) xi xj yk yl \<and> val a = 1"
proof -
  from memo_inv_solve0[OF inv a] solve0_shape[of RIv xi xj yk yl]
  have "answer_shape RIv xi xj yk yl a" by simp
  then show ?thesis using t unfolding answer_shape_def
    by (auto simp: Answer0_def leaf_cand_def vcand_def hcand_def)
qed

lemma reachable_memo_inv: "reachable_memo RIv m \<Longrightarrow> memo_inv RIv m"
proof (induction rule: reachable_memo.induct)
  case start
  show ?case by (rule memo_inv_empty)
next
  case (step m xi xj yk yl)
  from solve_inv[OF step.IH, of xi xj yk yl] show ?case by auto
qed

lemma solve_reachable:
  assumes "reachable_memo RIv m"
  shows "solve RIv m xi xj yk yl = (solve0 RIv xi xj yk yl, snd (solve RIv m xi xj yk yl)) \<and>
         memo_inv RIv (snd (solve RIv m xi xj yk yl)) \<and>
         (xi < xj \<and> yk < yl \<longrightarrow>
            snd (solve RIv m xi xj yk yl) (xi, xj, yk, yl) = Some (solve0 RIv xi xj yk yl))"
proof -
  from solve_inv[OF reachable_memo_inv[OF assms], of xi xj yk yl] obtain m' where m':
    "solve RIv m xi xj yk yl = (solve0 RIv xi xj yk yl, m')" "memo_inv RIv m'"
    "xi < xj \<and> yk < yl \<longrightarrow> m' (xi, xj, yk, yl) \<noteq> None" by blast
  have "m' (xi, xj, yk, yl) = Some (solve0 RIv xi xj yk yl)" if "xi < xj \<and> yk < yl"
  proof -
    from m'(3) that obtain a where a: "m' (xi, xj, yk, yl) = Some a" by blast
    from memo_inv_solve0[OF m'(2) a] a show ?thesis by simp
  qed
  then show ?thesis using m'(1,2) by simp
qed

lemma reachable_vcuts:
  "reachable_memo RIv m \<Longrightarrow> reachable_memo RIv (snd (vcuts RIv m xi xj yk yl c best))"
proof (induction "nat (xj - c)" arbitrary: c m best)
  case 0
  then have "\<not> c \<le> xj - 1" by simp
  then show ?case using 0 by (simp add: vcuts.simps)
next
  case (Suc n)
  then have c: "c \<le> xj - 1" by simp
  let ?m1 = "snd (solve RIv m xi c yk yl)"
  let ?m2 = "snd (solve RIv ?m1 c xj yk yl)"
  have r2: "reachable_memo RIv ?m2"
    using Suc.prems by (intro reachable_memo.step)
  have n: "n = nat (xj - (c + 1))" using Suc.hyps(2) by simp
  let ?v = "val (fst (solve RIv m xi c yk yl)) + val (fst (solve RIv ?m1 c xj yk yl))"
  let ?best' = "if ?v > val best then \<lparr>val = ?v, ch = \<lparr>type = 2, param = c\<rparr>\<rparr> else best"
  have "vcuts RIv m xi xj yk yl c best = vcuts RIv ?m2 xi xj yk yl (c + 1) ?best'"
    using c by (subst vcuts.simps) (simp add: split_beta Let_def)
  then show ?case using Suc.hyps(1)[OF n r2] by simp
qed

lemma reachable_hcuts:
  "reachable_memo RIv m \<Longrightarrow> reachable_memo RIv (snd (hcuts RIv m xi xj yk yl c best))"
proof (induction "nat (yl - c)" arbitrary: c m best)
  case 0
  then have "\<not> c \<le> yl - 1" by simp
  then show ?case using 0 by (simp add: hcuts.simps)
next
  case (Suc n)
  then have c: "c \<le> yl - 1" by simp
  let ?m1 = "snd (solve RIv m xi xj yk c)"
  let ?m2 = "snd (solve RIv ?m1 xi xj c yl)"
  have r2: "reachable_memo RIv ?m2"
    using Suc.prems by (intro reachable_memo.step)
  have n: "n = nat (yl - (c + 1))" using Suc.hyps(2) by simp
  let ?v = "val (fst (solve RIv m xi xj yk c)) + val (fst (solve RIv ?m1 xi xj c yl))"
  let ?best' = "if ?v > val best then \<lparr>val = ?v, ch = \<lparr>type = 3, param = c\<rparr>\<rparr> else best"
  have "hcuts RIv m xi xj yk yl c best = hcuts RIv ?m2 xi xj yk yl (c + 1) ?best'"
    using c by (subst hcuts.simps) (simp add: split_beta Let_def)
  then show ?case using Suc.hyps(1)[OF n r2] by simp
qed

section \<open>The value of a window\<close>

text \<open>
  The value is at most the number of well-formed rectangles inside the window, and at
  least 1 when the grid is proper and the window contains a rectangle.
\<close>

lemma windowHasAnyRect_iff:
  "windowHasAnyRect RIv xi xj yk yl \<longleftrightarrow>
     (\<exists>rid<length RIv. xi \<le> ixl (RIv ! rid) \<and> ixr (RIv ! rid) \<le> xj \<and>
                       yk \<le> iyb (RIv ! rid) \<and> iyt (RIv ! rid) \<le> yl)"
  unfolding windowHasAnyRect_def list_ex_iff by (auto simp: Let_def)

lemma inside_count_vsplit:
  "inside_count RIv xi c yk yl + inside_count RIv c xj yk yl \<le> inside_count RIv xi xj yk yl"
  if "xi \<le> c" "c \<le> xj"
  unfolding inside_count_def using that by (induction RIv) auto

lemma inside_count_hsplit:
  "inside_count RIv xi xj yk c + inside_count RIv xi xj c yl \<le> inside_count RIv xi xj yk yl"
  if "yk \<le> c" "c \<le> yl"
  unfolding inside_count_def using that by (induction RIv) auto

lemma inside_count_le: "inside_count RIv xi xj yk yl \<le> length RIv"
  unfolding inside_count_def by simp

lemma inside_count_exact:
  assumes "rid < length RIv" "exactMatch RIv rid xi xj yk yl" "xi < xj" "yk < yl"
  shows "1 \<le> inside_count RIv xi xj yk yl"
proof -
  let ?P = "\<lambda>q. ixl q < ixr q \<and> iyb q < iyt q \<and>
                         xi \<le> ixl q \<and> ixr q \<le> xj \<and> yk \<le> iyb q \<and> iyt q \<le> yl"
  have "RIv ! rid \<in> set (filter ?P RIv)"
    using assms by (simp add: exactMatch_def Let_def)
  then have "filter ?P RIv \<noteq> []" by (metis empty_iff empty_set)
  then show ?thesis unfolding inside_count_def by (simp add: Suc_le_eq)
qed

lemma solve0_bounds:
  "0 \<le> val (solve0 RIv xi xj yk yl) \<and>
   val (solve0 RIv xi xj yk yl) \<le> int (inside_count RIv xi xj yk yl)"
proof (induction "nat (xj - xi) + nat (yl - yk)" arbitrary: xi xj yk yl rule: less_induct)
  case less
  let ?a = "solve0 RIv xi xj yk yl"
  show ?case
  proof (cases "xi \<ge> xj \<or> yk \<ge> yl")
    case True
    then show ?thesis by (simp add: solve0_unfold Answer0_def)
  next
    case False
    then have nd: "xi < xj" "yk < yl" by simp_all
    from solve0_shape[of RIv xi xj yk yl]
    consider (Z) "?a = Answer0"
      | (L) rid where "rid < length RIv" "?a = leaf_cand rid" "exactMatch RIv rid xi xj yk yl"
      | (V) c where "xi < c" "c < xj" "?a = vcand RIv xi xj yk yl c"
      | (H) c where "yk < c" "c < yl" "?a = hcand RIv xi xj yk yl c"
      unfolding answer_shape_def by blast
    then show ?thesis
    proof cases
      case Z
      then show ?thesis by (simp add: Answer0_def)
    next
      case L
      from inside_count_exact[OF L(1,3) nd] show ?thesis using L(2) by (simp add: leaf_cand_def)
    next
      case V
      have l: "0 \<le> val (solve0 RIv xi c yk yl) \<and>
               val (solve0 RIv xi c yk yl) \<le> int (inside_count RIv xi c yk yl)"
        using V nd by (intro less) simp
      have r: "0 \<le> val (solve0 RIv c xj yk yl) \<and>
               val (solve0 RIv c xj yk yl) \<le> int (inside_count RIv c xj yk yl)"
        using V nd by (intro less) simp
      have "inside_count RIv xi c yk yl + inside_count RIv c xj yk yl \<le> inside_count RIv xi xj yk yl"
        using V by (intro inside_count_vsplit) simp_all
      then show ?thesis using l r V(3) by (simp add: vcand_def)
    next
      case H
      have l: "0 \<le> val (solve0 RIv xi xj yk c) \<and>
               val (solve0 RIv xi xj yk c) \<le> int (inside_count RIv xi xj yk c)"
        using H nd by (intro less) simp
      have r: "0 \<le> val (solve0 RIv xi xj c yl) \<and>
               val (solve0 RIv xi xj c yl) \<le> int (inside_count RIv xi xj c yl)"
        using H nd by (intro less) simp
      have "inside_count RIv xi xj yk c + inside_count RIv xi xj c yl \<le> inside_count RIv xi xj yk yl"
        using H by (intro inside_count_hsplit) simp_all
      then show ?thesis using l r H(3) by (simp add: hcand_def)
    qed
  qed
qed

lemma solve0_pos:
  assumes p: "proper_RI RIv"
  shows "xi < xj \<Longrightarrow> yk < yl \<Longrightarrow> windowHasAnyRect RIv xi xj yk yl \<Longrightarrow>
         1 \<le> val (solve0 RIv xi xj yk yl)"
proof (induction "nat (xj - xi) + nat (yl - yk)" arbitrary: xi xj yk yl rule: less_induct)
  case less
  note nd = less.prems(1,2)
  from less.prems(3) obtain rid where rid: "rid < length RIv"
    "xi \<le> ixl (RIv ! rid)" "ixr (RIv ! rid) \<le> xj" "yk \<le> iyb (RIv ! rid)" "iyt (RIv ! rid) \<le> yl"
    unfolding windowHasAnyRect_iff by blast
  let ?q = "RIv ! rid"
  have pq: "ixl ?q < ixr ?q" "iyb ?q < iyt ?q" using p rid(1) unfolding proper_RI_def by simp_all
  have s0: "solve0 RIv xi xj yk yl = cut_search RIv xi xj yk yl"
    using nd less.prems(3) by (simp add: solve0_unfold)
  have has: "windowHasAnyRect RIv a b c d"
    if "a \<le> ixl ?q" "ixr ?q \<le> b" "c \<le> iyb ?q" "iyt ?q \<le> d" for a b c d
    unfolding windowHasAnyRect_iff using rid(1) that by blast
  have nonneg: "0 \<le> val (solve0 RIv a b c d)" for a b c d
    using solve0_bounds by blast
  consider (E) "exactMatch RIv rid xi xj yk yl"
    | (XL) "xi < ixl ?q" | (XR) "ixr ?q < xj" | (YB) "yk < iyb ?q" | (YT) "iyt ?q < yl"
    using rid unfolding exactMatch_def Let_def by force
  then have "\<exists>a \<in> set (candidates RIv xi xj yk yl). 1 \<le> val a"
  proof cases
    case E
    then have "leaf_cand rid \<in> set (candidates RIv xi xj yk yl)"
      using rid(1) unfolding candidates_def by simp
    then show ?thesis by (rule bexI[rotated]) (simp add: leaf_cand_def)
  next
    case XL
    let ?c = "ixl ?q"
    have c: "xi < ?c" "?c < xj" using XL pq rid by simp_all
    have "1 \<le> val (solve0 RIv ?c xj yk yl)"
      using c nd rid by (intro less has) simp_all
    then have "1 \<le> val (vcand RIv xi xj yk yl ?c)"
      using nonneg[of xi ?c yk yl] by (simp add: vcand_def)
    moreover have "vcand RIv xi xj yk yl ?c \<in> set (candidates RIv xi xj yk yl)"
      using c unfolding candidates_def by simp
    ultimately show ?thesis by blast
  next
    case XR
    let ?c = "ixr ?q"
    have c: "xi < ?c" "?c < xj" using XR pq rid by simp_all
    have "1 \<le> val (solve0 RIv xi ?c yk yl)"
      using c nd rid by (intro less has) simp_all
    then have "1 \<le> val (vcand RIv xi xj yk yl ?c)"
      using nonneg[of ?c xj yk yl] by (simp add: vcand_def)
    moreover have "vcand RIv xi xj yk yl ?c \<in> set (candidates RIv xi xj yk yl)"
      using c unfolding candidates_def by simp
    ultimately show ?thesis by blast
  next
    case YB
    let ?c = "iyb ?q"
    have c: "yk < ?c" "?c < yl" using YB pq rid by simp_all
    have "1 \<le> val (solve0 RIv xi xj ?c yl)"
      using c nd rid by (intro less has) simp_all
    then have "1 \<le> val (hcand RIv xi xj yk yl ?c)"
      using nonneg[of xi xj yk ?c] by (simp add: hcand_def)
    moreover have "hcand RIv xi xj yk yl ?c \<in> set (candidates RIv xi xj yk yl)"
      using c unfolding candidates_def by simp
    ultimately show ?thesis by blast
  next
    case YT
    let ?c = "iyt ?q"
    have c: "yk < ?c" "?c < yl" using YT pq rid by simp_all
    have "1 \<le> val (solve0 RIv xi xj yk ?c)"
      using c nd rid by (intro less has) simp_all
    then have "1 \<le> val (hcand RIv xi xj yk yl ?c)"
      using nonneg[of xi xj ?c yl] by (simp add: hcand_def)
    moreover have "hcand RIv xi xj yk yl ?c \<in> set (candidates RIv xi xj yk yl)"
      using c unfolding candidates_def by simp
    ultimately show ?thesis by blast
  qed
  then show ?case unfolding s0 using cand_le_cut_search by force
qed

section \<open>Reconstruction on a table that satisfies the invariant\<close>

text \<open>
  By induction on the size of the window: \<open>recon\<close> returns, and what it appends has the
  length of the stored value, names stored leaves inside the window, and is separated
  pairwise by grid lines.
\<close>

lemma leaf_in_bounds:
  assumes "leaf_in RIv m xi xj yk yl rid"
  shows "xi \<le> ixl (RIv ! nat rid) \<and> ixl (RIv ! nat rid) < ixr (RIv ! nat rid) \<and> ixr (RIv ! nat rid) \<le> xj \<and>
         yk \<le> iyb (RIv ! nat rid) \<and> iyb (RIv ! nat rid) < iyt (RIv ! nat rid) \<and> iyt (RIv ! nat rid) \<le> yl"
  using assms unfolding leaf_in_def exactMatch_def Let_def by auto

lemma leaf_in_mono:
  assumes "leaf_in RIv m xi xj yk yl rid" "xi0 \<le> xi" "xj \<le> xj0" "yk0 \<le> yk" "yl \<le> yl0"
  shows "leaf_in RIv m xi0 xj0 yk0 yl0 rid"
proof -
  from assms(1) obtain xi' xj' yk' yl' where w:
    "0 \<le> rid" "nat rid < length RIv"
    "xi \<le> xi'" "xi' < xj'" "xj' \<le> xj" "yk \<le> yk'" "yk' < yl'" "yl' \<le> yl"
    "m (xi', xj', yk', yl') = Some \<lparr>val = 1, ch = \<lparr>type = 1, param = rid\<rparr>\<rparr>"
    "exactMatch RIv (nat rid) xi' xj' yk' yl'"
    unfolding leaf_in_def by blast
  have "xi0 \<le> xi'" "xj' \<le> xj0" "yk0 \<le> yk'" "yl' \<le> yl0" using w assms(2-5) by simp_all
  then show ?thesis unfolding leaf_in_def using w by blast
qed

lemma recon_good_vcut:
  assumes l: "recon_good RIv m xi c yk yl ids1" and r: "recon_good RIv m c xj yk yl ids2"
    and c: "xi < c" "c < xj"
    and v: "val (solve0 RIv xi xj yk yl) = val (solve0 RIv xi c yk yl) + val (solve0 RIv c xj yk yl)"
  shows "recon_good RIv m xi xj yk yl (ids1 @ ids2)"
proof -
  have in1: "leaf_in RIv m xi c yk yl a" if "a \<in> set ids1" for a
    using l that unfolding recon_good_def by blast
  have in2: "leaf_in RIv m c xj yk yl a" if "a \<in> set ids2" for a
    using r that unfolding recon_good_def by blast
  have cross: "grid_disjoint (RIv ! nat a) (RIv ! nat b) \<and> grid_disjoint (RIv ! nat b) (RIv ! nat a) \<and> a \<noteq> b"
    if "a \<in> set ids1" "b \<in> set ids2" for a b
    using leaf_in_bounds[OF in1[OF that(1)]] leaf_in_bounds[OF in2[OF that(2)]]
    unfolding grid_disjoint_def by auto
  have len: "int (length (ids1 @ ids2)) = val (solve0 RIv xi xj yk yl)"
    using l r v unfolding recon_good_def by simp
  have dist: "distinct (ids1 @ ids2)"
    using l r cross unfolding recon_good_def by auto
  have lf: "\<forall>rid\<in>set (ids1 @ ids2). leaf_in RIv m xi xj yk yl rid"
    using leaf_in_mono[OF in1, of _ xi xj yk yl] leaf_in_mono[OF in2, of _ xi xj yk yl] c by auto
  have dj: "\<forall>a\<in>set (ids1 @ ids2). \<forall>b\<in>set (ids1 @ ids2). a \<noteq> b \<longrightarrow> grid_disjoint (RIv ! nat a) (RIv ! nat b)"
  proof (intro ballI impI)
    fix a b assume ab: "a \<in> set (ids1 @ ids2)" "b \<in> set (ids1 @ ids2)" "a \<noteq> b"
    then consider "a \<in> set ids1" "b \<in> set ids1" | "a \<in> set ids1" "b \<in> set ids2"
      | "a \<in> set ids2" "b \<in> set ids1" | "a \<in> set ids2" "b \<in> set ids2" by auto
    then show "grid_disjoint (RIv ! nat a) (RIv ! nat b)"
    proof cases
      case 1 then show ?thesis using l ab(3) unfolding recon_good_def by blast
    next
      case 2 then show ?thesis using cross by blast
    next
      case 3 then show ?thesis using cross by blast
    next
      case 4 then show ?thesis using r ab(3) unfolding recon_good_def by blast
    qed
  qed
  show ?thesis unfolding recon_good_def using len dist lf dj by blast
qed

lemma recon_good_hcut:
  assumes l: "recon_good RIv m xi xj yk c ids1" and r: "recon_good RIv m xi xj c yl ids2"
    and c: "yk < c" "c < yl"
    and v: "val (solve0 RIv xi xj yk yl) = val (solve0 RIv xi xj yk c) + val (solve0 RIv xi xj c yl)"
  shows "recon_good RIv m xi xj yk yl (ids1 @ ids2)"
proof -
  have in1: "leaf_in RIv m xi xj yk c a" if "a \<in> set ids1" for a
    using l that unfolding recon_good_def by blast
  have in2: "leaf_in RIv m xi xj c yl a" if "a \<in> set ids2" for a
    using r that unfolding recon_good_def by blast
  have cross: "grid_disjoint (RIv ! nat a) (RIv ! nat b) \<and> grid_disjoint (RIv ! nat b) (RIv ! nat a) \<and> a \<noteq> b"
    if "a \<in> set ids1" "b \<in> set ids2" for a b
    using leaf_in_bounds[OF in1[OF that(1)]] leaf_in_bounds[OF in2[OF that(2)]]
    unfolding grid_disjoint_def by auto
  have len: "int (length (ids1 @ ids2)) = val (solve0 RIv xi xj yk yl)"
    using l r v unfolding recon_good_def by simp
  have dist: "distinct (ids1 @ ids2)"
    using l r cross unfolding recon_good_def by auto
  have lf: "\<forall>rid\<in>set (ids1 @ ids2). leaf_in RIv m xi xj yk yl rid"
    using leaf_in_mono[OF in1, of _ xi xj yk yl] leaf_in_mono[OF in2, of _ xi xj yk yl] c by auto
  have dj: "\<forall>a\<in>set (ids1 @ ids2). \<forall>b\<in>set (ids1 @ ids2). a \<noteq> b \<longrightarrow> grid_disjoint (RIv ! nat a) (RIv ! nat b)"
  proof (intro ballI impI)
    fix a b assume ab: "a \<in> set (ids1 @ ids2)" "b \<in> set (ids1 @ ids2)" "a \<noteq> b"
    then consider "a \<in> set ids1" "b \<in> set ids1" | "a \<in> set ids1" "b \<in> set ids2"
      | "a \<in> set ids2" "b \<in> set ids1" | "a \<in> set ids2" "b \<in> set ids2" by auto
    then show "grid_disjoint (RIv ! nat a) (RIv ! nat b)"
    proof cases
      case 1 then show ?thesis using l ab(3) unfolding recon_good_def by blast
    next
      case 2 then show ?thesis using cross by blast
    next
      case 3 then show ?thesis using cross by blast
    next
      case 4 then show ?thesis using r ab(3) unfolding recon_good_def by blast
    qed
  qed
  show ?thesis unfolding recon_good_def using len dist lf dj by blast
qed

lemma recon_ok:
  assumes inv: "memo_inv RIv m"
  shows "m (xi, xj, yk, yl) \<noteq> None \<Longrightarrow>
         \<exists>ids. recon m xi xj yk yl chosen = Some (chosen @ ids) \<and> recon_good RIv m xi xj yk yl ids"
proof (induction "nat (xj - xi) + nat (yl - yk)" arbitrary: xi xj yk yl chosen rule: less_induct)
  case less
  from less.prems obtain a where a: "m (xi, xj, yk, yl) = Some a" by blast
  from inv a have nd: "xi < xj" "yk < yl" and a0: "a = solve0 RIv xi xj yk yl"
    and clv: "type (ch a) = 2 \<longrightarrow>
           m (xi, param (ch a), yk, yl) \<noteq> None \<and> m (param (ch a), xj, yk, yl) \<noteq> None"
    and clh: "type (ch a) = 3 \<longrightarrow>
           m (xi, xj, yk, param (ch a)) \<noteq> None \<and> m (xi, xj, param (ch a), yl) \<noteq> None"
    unfolding memo_inv_def by blast+
  from solve0_shape[of RIv xi xj yk yl]
  consider (Z) "a = Answer0"
    | (L) rid where "rid < length RIv" "a = leaf_cand rid" "exactMatch RIv rid xi xj yk yl"
    | (V) c where "xi < c" "c < xj" "a = vcand RIv xi xj yk yl c" "1 \<le> val a"
    | (H) c where "yk < c" "c < yl" "a = hcand RIv xi xj yk yl c" "1 \<le> val a"
    unfolding answer_shape_def a0 by blast
  then show ?case
  proof cases
    case Z
    have "recon m xi xj yk yl chosen = Some (chosen @ [])"
      using a Z by (subst recon.simps) (simp add: Answer0_def)
    moreover have "recon_good RIv m xi xj yk yl []"
      using Z a0 unfolding recon_good_def by (simp add: Answer0_def)
    ultimately show ?thesis by blast
  next
    case L
    have "recon m xi xj yk yl chosen = Some (chosen @ [int rid])"
      using a L(2) by (subst recon.simps) (simp add: leaf_cand_def)
    moreover have "leaf_in RIv m xi xj yk yl (int rid)"
      unfolding leaf_in_def using L nd a by (auto simp: leaf_cand_def)
    then have "recon_good RIv m xi xj yk yl [int rid]"
      using L(2) a0 unfolding recon_good_def by (simp add: leaf_cand_def)
    ultimately show ?thesis by blast
  next
    case V
    have t: "type (ch a) = 2" "param (ch a) = c" "val a \<noteq> 0" using V(3,4) by (simp_all add: vcand_def)
    from clv t have inL: "m (xi, c, yk, yl) \<noteq> None" and inR: "m (c, xj, yk, yl) \<noteq> None" by simp_all
    have "nat (c - xi) + nat (yl - yk) < nat (xj - xi) + nat (yl - yk)" using V nd by simp
    from less.hyps[OF this inL, of chosen] obtain ids1 where 1:
      "recon m xi c yk yl chosen = Some (chosen @ ids1)" "recon_good RIv m xi c yk yl ids1" by blast
    have "nat (xj - c) + nat (yl - yk) < nat (xj - xi) + nat (yl - yk)" using V nd by simp
    from less.hyps[OF this inR, of "chosen @ ids1"] obtain ids2 where 2:
      "recon m c xj yk yl (chosen @ ids1) = Some ((chosen @ ids1) @ ids2)"
      "recon_good RIv m c xj yk yl ids2" by blast
    have "recon m xi xj yk yl chosen = Some (chosen @ (ids1 @ ids2))"
      using a t 1(1) 2(1) by (subst recon.simps) simp
    moreover have "val (solve0 RIv xi xj yk yl) = val (solve0 RIv xi c yk yl) + val (solve0 RIv c xj yk yl)"
      using V(3) a0 by (simp add: vcand_def)
    from recon_good_vcut[OF 1(2) 2(2) V(1,2) this]
    have "recon_good RIv m xi xj yk yl (ids1 @ ids2)" .
    ultimately show ?thesis by blast
  next
    case H
    have t: "type (ch a) = 3" "param (ch a) = c" "val a \<noteq> 0" using H(3,4) by (simp_all add: hcand_def)
    from clh t have inL: "m (xi, xj, yk, c) \<noteq> None" and inR: "m (xi, xj, c, yl) \<noteq> None" by simp_all
    have "nat (xj - xi) + nat (c - yk) < nat (xj - xi) + nat (yl - yk)" using H nd by simp
    from less.hyps[OF this inL, of chosen] obtain ids1 where 1:
      "recon m xi xj yk c chosen = Some (chosen @ ids1)" "recon_good RIv m xi xj yk c ids1" by blast
    have "nat (xj - xi) + nat (yl - c) < nat (xj - xi) + nat (yl - yk)" using H nd by simp
    from less.hyps[OF this inR, of "chosen @ ids1"] obtain ids2 where 2:
      "recon m xi xj c yl (chosen @ ids1) = Some ((chosen @ ids1) @ ids2)"
      "recon_good RIv m xi xj c yl ids2" by blast
    have "recon m xi xj yk yl chosen = Some (chosen @ (ids1 @ ids2))"
      using a t 1(1) 2(1) by (subst recon.simps) simp
    moreover have "val (solve0 RIv xi xj yk yl) = val (solve0 RIv xi xj yk c) + val (solve0 RIv xi xj c yl)"
      using H(3) a0 by (simp add: hcand_def)
    from recon_good_hcut[OF 1(2) 2(2) H(1,2) this]
    have "recon_good RIv m xi xj yk yl (ids1 @ ids2)" .
    ultimately show ?thesis by blast
  qed
qed

lemma recon_visits_memo:
  assumes inv: "memo_inv RIv m"
  shows "recon_visits m k k' \<Longrightarrow> m k \<noteq> None \<Longrightarrow> m k' \<noteq> None"
proof (induction rule: recon_visits.induct)
  case (here k)
  then show ?case by simp
next
  case (vleft xi xj yk yl A k)
  from inv vleft(1,4) have "m (xi, param (ch A), yk, yl) \<noteq> None" unfolding memo_inv_def by blast
  then show ?case by (rule vleft.IH)
next
  case (vright xi xj yk yl A k)
  from inv vright(1,4) have "m (param (ch A), xj, yk, yl) \<noteq> None" unfolding memo_inv_def by blast
  then show ?case by (rule vright.IH)
next
  case (hbottom xi xj yk yl A k)
  from inv hbottom(1,5) have "m (xi, xj, yk, param (ch A)) \<noteq> None" unfolding memo_inv_def by blast
  then show ?case by (rule hbottom.IH)
next
  case (htop xi xj yk yl A k)
  from inv htop(1,5) have "m (xi, xj, param (ch A), yl) \<noteq> None" unfolding memo_inv_def by blast
  then show ?case by (rule htop.IH)
qed

section \<open>Compression and indexing\<close>

text \<open>
  On the sorted axis \<open>lower_bound\<close> finds every bound of every rectangle, in order.
\<close>

lemma lower_bound_nth:
  assumes "sorted v" "t \<in> set v"
  shows "0 \<le> lower_bound v t \<and> lower_bound v t < int (length v) \<and> v ! nat (lower_bound v t) = t"
proof -
  let ?n = "length (takeWhile (\<lambda>x. x < t) v)"
  from assms(2) obtain i where i: "i < length v" "v ! i = t" by (metis in_set_conv_nth)
  have ni: "?n \<le> i"
  proof (rule ccontr)
    assume "\<not> ?n \<le> i"
    then have "i < ?n" by simp
    then have "takeWhile (\<lambda>x. x < t) v ! i \<in> set (takeWhile (\<lambda>x. x < t) v)" by simp
    then have "takeWhile (\<lambda>x. x < t) v ! i < t" by (metis set_takeWhileD)
    moreover have "takeWhile (\<lambda>x. x < t) v ! i = v ! i" using \<open>i < ?n\<close> by (rule takeWhile_nth)
    ultimately show False using i(2) by simp
  qed
  then have lt: "?n < length v" using i(1) by simp
  then have "\<not> v ! ?n < t" by (rule nth_length_takeWhile)
  moreover have "v ! ?n \<le> v ! i" using assms(1) ni i(1) by (simp add: sorted_nth_mono)
  ultimately have "v ! ?n = t" using i(2) by simp
  then show ?thesis using lt unfolding lower_bound_def by simp
qed

lemma lower_bound_strict:
  assumes s: "sorted v" and a: "a \<in> set v" and b: "b \<in> set v" and ab: "a < b"
  shows "lower_bound v a < lower_bound v b"
proof (rule ccontr)
  assume "\<not> lower_bound v a < lower_bound v b"
  then have le: "nat (lower_bound v b) \<le> nat (lower_bound v a)" by simp
  from lower_bound_nth[OF s a] lower_bound_nth[OF s b]
  have A: "nat (lower_bound v a) < length v" "v ! nat (lower_bound v a) = a"
    and B: "v ! nat (lower_bound v b) = b" by (simp_all add: nat_less_iff)
  have "v ! nat (lower_bound v b) \<le> v ! nat (lower_bound v a)"
    using s le A(1) by (simp add: sorted_nth_mono)
  then show False using A(2) B ab by simp
qed

lemma sorted_nth_le:
  assumes "sorted v" "i \<le> j" "0 \<le> i" "j < int (length v)"
  shows "v ! nat i \<le> v ! nat j"
  using assms by (simp add: sorted_nth_mono)

lemma compress_xs_sorted: "sorted (compress_xs R)"
  unfolding compress_xs_def by (simp add: sorted_remdups_adj)

lemma compress_ys_sorted: "sorted (compress_ys R)"
  unfolding compress_ys_def by (simp add: sorted_remdups_adj)

lemma compress_xs_mem: "r \<in> set R \<Longrightarrow> xl r \<in> set (compress_xs R) \<and> xr r \<in> set (compress_xs R)"
  unfolding compress_xs_def by auto

lemma compress_ys_mem: "r \<in> set R \<Longrightarrow> yb r \<in> set (compress_ys R) \<and> yt r \<in> set (compress_ys R)"
  unfolding compress_ys_def by auto

lemma index_all_nth:
  assumes v: "valid_instance R" and i: "i < length R"
  shows "0 \<le> ixl (index_all R ! i) \<and> ixl (index_all R ! i) < ixr (index_all R ! i) \<and>
         ixr (index_all R ! i) \<le> int (length (compress_xs R)) - 1 \<and>
         0 \<le> iyb (index_all R ! i) \<and> iyb (index_all R ! i) < iyt (index_all R ! i) \<and>
         iyt (index_all R ! i) \<le> int (length (compress_ys R)) - 1 \<and>
         compress_xs R ! nat (ixl (index_all R ! i)) = xl (R ! i) \<and>
         compress_xs R ! nat (ixr (index_all R ! i)) = xr (R ! i) \<and>
         compress_ys R ! nat (iyb (index_all R ! i)) = yb (R ! i) \<and>
         compress_ys R ! nat (iyt (index_all R ! i)) = yt (R ! i)"
proof -
  let ?r = "R ! i"
  have r: "?r \<in> set R" using i by simp
  then have o: "xl ?r < xr ?r" "yb ?r < yt ?r" using v unfolding valid_instance_def by simp_all
  note mx = compress_xs_mem[OF r] and my = compress_ys_mem[OF r]
  note sx = compress_xs_sorted[of R] and sy = compress_ys_sorted[of R]
  have q: "index_all R ! i = index_rect (compress_xs R) (compress_ys R) ?r"
    using i unfolding index_all_def by simp
  from lower_bound_nth[OF sx conjunct1[OF mx]] lower_bound_nth[OF sx conjunct2[OF mx]]
       lower_bound_nth[OF sy conjunct1[OF my]] lower_bound_nth[OF sy conjunct2[OF my]]
       lower_bound_strict[OF sx conjunct1[OF mx] conjunct2[OF mx] o(1)]
       lower_bound_strict[OF sy conjunct1[OF my] conjunct2[OF my] o(2)]
  show ?thesis unfolding q index_rect_def by simp
qed

lemma length_index_all: "length (index_all R) = length R"
  unfolding index_all_def by simp

lemma valid_proper: "valid_instance R \<Longrightarrow> proper_RI (index_all R)"
  unfolding proper_RI_def using index_all_nth
  by (metis in_set_conv_nth length_index_all)

lemma valid_root:
  assumes v: "valid_instance R"
  shows "0 < int (length (compress_xs R)) - 1 \<and> 0 < int (length (compress_ys R)) - 1 \<and>
         windowHasAnyRect (index_all R) 0 (int (length (compress_xs R)) - 1)
            0 (int (length (compress_ys R)) - 1)"
proof -
  from v have 0: "0 < length R" unfolding valid_instance_def by simp
  from index_all_nth[OF v 0] show ?thesis
    unfolding windowHasAnyRect_iff length_index_all using 0 by (intro conjI exI[of _ 0]) simp_all
qed

lemma grid_disjoint_real:
  assumes v: "valid_instance R" and i: "i < length R" and j: "j < length R"
    and g: "grid_disjoint (index_all R ! i) (index_all R ! j)"
  shows "\<not> rectanglesOverlap (R ! i) (R ! j)"
proof -
  note I = index_all_nth[OF v i] and J = index_all_nth[OF v j]
  note sx = compress_xs_sorted[of R] and sy = compress_ys_sorted[of R]
  from g consider "ixr (index_all R ! i) \<le> ixl (index_all R ! j)"
    | "ixr (index_all R ! j) \<le> ixl (index_all R ! i)"
    | "iyt (index_all R ! i) \<le> iyb (index_all R ! j)"
    | "iyt (index_all R ! j) \<le> iyb (index_all R ! i)"
    unfolding grid_disjoint_def by blast
  then show ?thesis
  proof cases
    case 1
    have "compress_xs R ! nat (ixr (index_all R ! i)) \<le> compress_xs R ! nat (ixl (index_all R ! j))"
      using 1 I J by (intro sorted_nth_le[OF sx]) simp_all
    then have "xr (R ! i) \<le> xl (R ! j)" using I J by simp
    then show ?thesis by (simp add: rectanglesOverlap_def min_le_iff_disj le_max_iff_disj)
  next
    case 2
    have "compress_xs R ! nat (ixr (index_all R ! j)) \<le> compress_xs R ! nat (ixl (index_all R ! i))"
      using 2 I J by (intro sorted_nth_le[OF sx]) simp_all
    then have "xr (R ! j) \<le> xl (R ! i)" using I J by simp
    then show ?thesis by (simp add: rectanglesOverlap_def min_le_iff_disj le_max_iff_disj)
  next
    case 3
    have "compress_ys R ! nat (iyt (index_all R ! i)) \<le> compress_ys R ! nat (iyb (index_all R ! j))"
      using 3 I J by (intro sorted_nth_le[OF sy]) simp_all
    then have "yt (R ! i) \<le> yb (R ! j)" using I J by simp
    then show ?thesis by (simp add: rectanglesOverlap_def min_le_iff_disj le_max_iff_disj)
  next
    case 4
    have "compress_ys R ! nat (iyt (index_all R ! j)) \<le> compress_ys R ! nat (iyb (index_all R ! i))"
      using 4 I J by (intro sorted_nth_le[OF sy]) simp_all
    then have "yt (R ! j) \<le> yb (R ! i)" using I J by simp
    then show ?thesis by (simp add: rectanglesOverlap_def min_le_iff_disj le_max_iff_disj)
  qed
qed

lemma exact_lies_inside:
  assumes v: "valid_instance R" and i: "i < length R"
    and e: "exactMatch (index_all R) i xi xj yk yl"
  shows "lies_inside R i (xi, xj, yk, yl)"
  using index_all_nth[OF v i] e unfolding lies_inside_def exactMatch_def Let_def by auto

section \<open>The engine on a valid instance\<close>

lemma engine_facts:
  assumes v: "valid_instance R"
  shows "\<exists>m'. engine R = (solve0 (index_all R) 0 (int (length (compress_xs R)) - 1)
                                 0 (int (length (compress_ys R)) - 1), m') \<and>
              memo_inv (index_all R) m' \<and>
              m' (root_window R) = Some (solve0 (index_all R) 0 (int (length (compress_xs R)) - 1)
                                 0 (int (length (compress_ys R)) - 1))"
proof -
  let ?X = "int (length (compress_xs R)) - 1" and ?Y = "int (length (compress_ys R)) - 1"
  from valid_root[OF v] have nd: "0 < ?X" "0 < ?Y" by simp_all
  from solve_inv[OF memo_inv_empty, of "index_all R" 0 ?X 0 ?Y] nd obtain m' where m':
    "solve (index_all R) Map.empty 0 ?X 0 ?Y = (solve0 (index_all R) 0 ?X 0 ?Y, m')"
    "memo_inv (index_all R) m'" "m' (0, ?X, 0, ?Y) \<noteq> None" by blast
  from m'(3) obtain a where a: "m' (0, ?X, 0, ?Y) = Some a" by blast
  from memo_inv_solve0[OF m'(2) a] a have "m' (0, ?X, 0, ?Y) = Some (solve0 (index_all R) 0 ?X 0 ?Y)"
    by simp
  then show ?thesis using m'(1,2) unfolding engine_def root_window_def by (simp add: Let_def)
qed

lemma reconstruct_facts:
  assumes v: "valid_instance R"
  shows "\<exists>ids. reconstruct R = Some ids \<and>
           recon_good (index_all R) (snd (engine R)) 0 (int (length (compress_xs R)) - 1)
                                 0 (int (length (compress_ys R)) - 1) ids"
proof -
  let ?X = "int (length (compress_xs R)) - 1" and ?Y = "int (length (compress_ys R)) - 1"
  from engine_facts[OF v] obtain m' where m':
    "engine R = (solve0 (index_all R) 0 ?X 0 ?Y, m')" "memo_inv (index_all R) m'"
    "m' (root_window R) = Some (solve0 (index_all R) 0 ?X 0 ?Y)" by blast
  have "m' (0, ?X, 0, ?Y) \<noteq> None" using m'(3) unfolding root_window_def by simp
  from recon_ok[OF m'(2) this, of "[]"] show ?thesis
    unfolding reconstruct_def using m'(1) by (simp add: Let_def)
qed

section \<open>Reading the input\<close>

lemma digit_not_space: "is_digit c \<Longrightarrow> \<not> is_space c"
  by (auto simp: is_digit_def is_space_def)

lemma digit_not_sign: "is_digit c \<Longrightarrow> c \<noteq> CHR ''-'' \<and> c \<noteq> CHR ''+''"
  by (auto simp: is_digit_def)

lemma sign_not_space: "\<not> is_space (CHR ''-'') \<and> \<not> is_space (CHR ''+'')"
  by (simp add: is_space_def)

lemma takeWhile_digits:
  assumes "list_all is_digit ds" "rest = [] \<or> \<not> is_digit (hd rest)"
  shows "takeWhile is_digit (ds @ rest) = ds \<and> dropWhile is_digit (ds @ rest) = rest"
proof -
  have a: "\<And>x. x \<in> set ds \<Longrightarrow> is_digit x" using assms(1) by (simp add: list_all_iff)
  have t: "takeWhile is_digit rest = []" and d: "dropWhile is_digit rest = rest"
    using assms(2) by (cases rest; simp)+
  show ?thesis using a t d by (simp add: takeWhile_append2 dropWhile_append2)
qed

lemma dropWhile_spaces:
  assumes "list_all is_space ws" "x \<noteq> []" "\<not> is_space (hd x)"
  shows "dropWhile is_space (ws @ x) = x"
proof -
  have a: "\<And>c. c \<in> set ws \<Longrightarrow> is_space c" using assms(1) by (simp add: list_all_iff)
  have "dropWhile is_space x = x" using assms(2,3) by (cases x) simp_all
  then show ?thesis using a by (simp add: dropWhile_append2)
qed

lemma extract_num_reads:
  assumes "reads_as lo hi s v rest"
  shows "extract_num lo hi s = Some (v, rest)"
proof -
  from assms obtain ws sg ds where h: "s = ws @ sg @ ds @ rest" "list_all is_space ws"
    "sg = [] \<or> sg = ''+'' \<or> sg = ''-''" "ds \<noteq> []" "list_all is_digit ds"
    "rest = [] \<or> \<not> is_digit (hd rest)"
    "v = (if sg = ''-'' then - digits_value ds else digits_value ds)" "lo \<le> v" "v \<le> hi"
    unfolding reads_as_def by blast
  have hd_ds: "is_digit (hd ds)" using h(4,5) by (cases ds) simp_all
  note td = takeWhile_digits[OF h(5,6)]
  from h(3) consider (none) "sg = []" | (plus) "sg = ''+''" | (minus) "sg = ''-''" by blast
  then show ?thesis
  proof cases
    case none
    have x: "ds @ rest \<noteq> []" "\<not> is_space (hd (ds @ rest))"
      using h(4) hd_ds digit_not_space by simp_all
    have s1: "dropWhile is_space s = ds @ rest"
      unfolding h(1) none using dropWhile_spaces[OF h(2) x] by simp
    have hd1: "hd (ds @ rest) \<noteq> CHR ''-''" "hd (ds @ rest) \<noteq> CHR ''+''"
      using h(4) hd_ds digit_not_sign by simp_all
    show ?thesis unfolding extract_num_def s1 Let_def
      using hd1 td h(4,7,8,9) none by simp
  next
    case plus
    have x: "''+'' @ ds @ rest \<noteq> []" "\<not> is_space (hd (''+'' @ ds @ rest))"
      using sign_not_space by simp_all
    have s1: "dropWhile is_space s = ''+'' @ ds @ rest"
      unfolding h(1) plus using dropWhile_spaces[OF h(2) x] by simp
    show ?thesis unfolding extract_num_def s1 Let_def
      using td h(4,7,8,9) plus by simp
  next
    case minus
    have x: "''-'' @ ds @ rest \<noteq> []" "\<not> is_space (hd (''-'' @ ds @ rest))"
      using sign_not_space by simp_all
    have s1: "dropWhile is_space s = ''-'' @ ds @ rest"
      unfolding h(1) minus using dropWhile_spaces[OF h(2) x] by simp
    show ?thesis unfolding extract_num_def s1 Let_def
      using td h(4,7,8,9) minus by simp
  qed
qed

lemma extract_num_reads_conv:
  assumes "extract_num lo hi s = Some (v, rest)"
  shows "reads_as lo hi s v rest"
proof -
  define ws where "ws = takeWhile is_space s"
  define s1 where "s1 = dropWhile is_space s"
  define sgn where "sgn \<longleftrightarrow> s1 \<noteq> [] \<and> (hd s1 = CHR ''-'' \<or> hd s1 = CHR ''+'')"
  define neg where "neg \<longleftrightarrow> s1 \<noteq> [] \<and> hd s1 = CHR ''-''"
  define sg where "sg = (if sgn then [hd s1] else [])"
  define s2 where "s2 = (if sgn then tl s1 else s1)"
  define ds where "ds = takeWhile is_digit s2"
  define w where "w = (if neg then - digits_value ds else digits_value ds)"
  have ex: "extract_num lo hi s =
      (if ds = [] \<or> w < lo \<or> hi < w then None else Some (w, dropWhile is_digit s2))"
    unfolding extract_num_def Let_def w_def ds_def s2_def neg_def sgn_def s1_def by simp
  from assms have e: "ds \<noteq> []" "lo \<le> w" "w \<le> hi" "v = w" "rest = dropWhile is_digit s2"
    unfolding ex by (simp_all split: if_splits)
  have 1: "s = ws @ s1" unfolding ws_def s1_def by simp
  have 2: "s1 = sg @ s2" unfolding sg_def s2_def sgn_def by (cases s1) simp_all
  have 3: "s2 = ds @ rest" unfolding e(5) ds_def by simp
  have s: "s = ws @ sg @ ds @ rest" using 1 2 3 by simp
  have wsp: "list_all is_space ws" unfolding ws_def list_all_iff by (metis set_takeWhileD)
  have g: "sg = [] \<or> sg = ''+'' \<or> sg = ''-''" unfolding sg_def sgn_def by (cases s1) auto
  have d: "list_all is_digit ds" unfolding ds_def list_all_iff by (metis set_takeWhileD)
  have r: "rest = [] \<or> \<not> is_digit (hd rest)" unfolding e(5) by (metis hd_dropWhile)
  have "neg \<longleftrightarrow> sg = ''-''" unfolding neg_def sg_def sgn_def by (cases s1) auto
  then have val: "v = (if sg = ''-'' then - digits_value ds else digits_value ds)"
    unfolding e(4) w_def by simp
  have b: "lo \<le> v" "v \<le> hi" using e(2,3,4) by simp_all
  show ?thesis unfolding reads_as_def
    by (intro exI[of _ ws] exI[of _ sg] exI[of _ ds] conjI s wsp g e(1) d r val b)
qed

lemma extract_num_iff: "extract_num lo hi s = Some (v, rest) \<longleftrightarrow> reads_as lo hi s v rest"
  using extract_num_reads extract_num_reads_conv by blast

lemma read_rects_Inr_iff:
  "read_rects k i s = Inr R \<longleftrightarrow>
     (\<exists>s1. extract_records k s = Some (R, s1)) \<and> (\<forall>r\<in>set R. ordered r)"
proof (induction k arbitrary: i s R)
  case 0
  then show ?case by auto
next
  case (Suc k)
  show ?case
  proof (cases "extract4 s")
    case None
    then show ?thesis by simp
  next
    case (Some p)
    obtain r s' where p: "p = (r, s')" by (cases p) auto
    show ?thesis
    proof (cases "ordered r")
      case False
      then show ?thesis using Some p
        by (auto simp: ordered_def split: option.splits)
    next
      case True
      have "read_rects (Suc k) i s = Inr R \<longleftrightarrow>
              (\<exists>rs. R = r # rs \<and> read_rects k (i + 1) s' = Inr rs)"
        using Some p True by (auto simp: ordered_def split: sum.splits)
      also have "\<dots> \<longleftrightarrow> (\<exists>rs. R = r # rs \<and> (\<exists>s1. extract_records k s' = Some (rs, s1)) \<and>
                               (\<forall>q\<in>set rs. ordered q))"
        using Suc.IH by simp
      also have "\<dots> \<longleftrightarrow> (\<exists>s1. extract_records (Suc k) s = Some (R, s1)) \<and> (\<forall>r\<in>set R. ordered r)"
        using Some p True by (auto split: option.splits)
      finally show ?thesis .
    qed
  qed
qed

lemma read_rects_length: "read_rects k i s = Inr R \<Longrightarrow> length R = k"
proof (induction k arbitrary: i s R)
  case 0
  then show ?case by simp
next
  case (Suc k)
  then show ?case by (auto split: option.splits if_splits sum.splits)
qed

lemma read_rects_diag:
  "read_rects k i s = Inl d \<Longrightarrow>
     (\<exists>j<k. \<exists>R s1. extract_records j s = Some (R, s1) \<and> (\<forall>r\<in>set R. ordered r) \<and>
        ((d = BadLine (i + int j + 2) \<and> extract4 s1 = None) \<or>
         (d = BadRect (i + int j) \<and> (\<exists>r s2. extract4 s1 = Some (r, s2) \<and> \<not> ordered r))))"
proof (induction k arbitrary: i s)
  case 0
  then show ?case by simp
next
  case (Suc k)
  show ?case
  proof (cases "extract4 s")
    case None
    then have "d = BadLine (i + int 0 + 2)" using Suc.prems by simp
    then show ?thesis using None by (intro exI[of _ 0]) simp
  next
    case (Some p)
    obtain r s' where p: "p = (r, s')" by (cases p) auto
    show ?thesis
    proof (cases "ordered r")
      case False
      then have "d = BadRect (i + int 0)" using Suc.prems Some p by (simp add: ordered_def)
      then show ?thesis using Some p False by (intro exI[of _ 0]) simp
    next
      case True
      then have "read_rects k (i + 1) s' = Inl d"
        using Suc.prems Some p by (auto simp: ordered_def split: sum.splits)
      from Suc.IH[OF this] obtain j R s1 where j: "j < k" "extract_records j s' = Some (R, s1)"
        "\<forall>r\<in>set R. ordered r"
        "(d = BadLine (i + 1 + int j + 2) \<and> extract4 s1 = None) \<or>
         (d = BadRect (i + 1 + int j) \<and> (\<exists>r s2. extract4 s1 = Some (r, s2) \<and> \<not> ordered r))"
        by blast
      have "extract_records (Suc j) s = Some (r # R, s1)" using Some p j(2) by simp
      moreover have "\<forall>q\<in>set (r # R). ordered q" using True j(3) by simp
      moreover have "(d = BadLine (i + int (Suc j) + 2) \<and> extract4 s1 = None) \<or>
         (d = BadRect (i + int (Suc j)) \<and> (\<exists>r s2. extract4 s1 = Some (r, s2) \<and> \<not> ordered r))"
        using j(4) by (simp add: add.commute add.left_commute)
      ultimately show ?thesis using j(1) by (intro exI[of _ "Suc j"]) blast
    qed
  qed
qed

lemma read_rects_bad_line:
  "j < k \<Longrightarrow> extract_records j s = Some (R, s1) \<Longrightarrow> \<forall>r\<in>set R. ordered r \<Longrightarrow>
   extract4 s1 = None \<Longrightarrow> read_rects k i s = Inl (BadLine (i + int j + 2))"
proof (induction j arbitrary: k i s R)
  case 0
  then obtain k' where k: "k = Suc k'" by (cases k) auto
  from 0 show ?case unfolding k by simp
next
  case (Suc j)
  then obtain k' where k: "k = Suc k'" "j < k'" by (cases k) auto
  from Suc.prems(2) obtain r s' rs where e: "extract4 s = Some (r, s')"
    "extract_records j s' = Some (rs, s1)" "R = r # rs"
    by (auto split: option.splits)
  from Suc.prems(3) e(3) have o: "ordered r" "\<forall>q\<in>set rs. ordered q" by simp_all
  from Suc.IH[OF k(2) e(2) o(2) Suc.prems(4), of "i + 1"]
  have "read_rects k' (i + 1) s' = Inl (BadLine (i + int (Suc j) + 2))"
    by (simp add: add.commute add.left_commute)
  then show ?case unfolding k using e(1) o(1) by (simp add: ordered_def)
qed

lemma read_rects_bad_rect:
  "j < k \<Longrightarrow> extract_records j s = Some (R, s1) \<Longrightarrow> \<forall>r\<in>set R. ordered r \<Longrightarrow>
   extract4 s1 = Some (r0, s2) \<Longrightarrow> \<not> ordered r0 \<Longrightarrow> read_rects k i s = Inl (BadRect (i + int j))"
proof (induction j arbitrary: k i s R)
  case 0
  then obtain k' where k: "k = Suc k'" by (cases k) auto
  from 0 show ?case unfolding k by (simp add: ordered_def)
next
  case (Suc j)
  then obtain k' where k: "k = Suc k'" "j < k'" by (cases k) auto
  from Suc.prems(2) obtain r s' rs where e: "extract4 s = Some (r, s')"
    "extract_records j s' = Some (rs, s1)" "R = r # rs"
    by (auto split: option.splits)
  from Suc.prems(3) e(3) have o: "ordered r" "\<forall>q\<in>set rs. ordered q" by simp_all
  from Suc.IH[OF k(2) e(2) o(2) Suc.prems(4,5), of "i + 1"]
  have "read_rects k' (i + 1) s' = Inl (BadRect (i + int (Suc j)))"
    by (simp add: add.commute add.left_commute)
  then show ?case unfolding k using e(1) o(1) by (simp add: ordered_def)
qed

lemma read_rects_not_first: "read_rects k i s \<noteq> Inl NotPositiveN"
  using read_rects_diag[of k i s NotPositiveN] by auto

lemma read_input_Inr_iff: "read_input alloc s = Inr R \<longleftrightarrow> input_ok s R \<and> alloc (length R)"
proof
  assume a: "read_input alloc s = Inr R"
  then obtain n s' where n: "extract_int s = Some (n, s')" "0 < n" "alloc (nat n)"
    "read_rects (nat n) 0 s' = Inr R"
    unfolding read_input_def by (auto split: option.splits if_splits sum.splits)
  from n(4) have "(\<exists>s1. extract_records (nat n) s' = Some (R, s1)) \<and> (\<forall>r\<in>set R. ordered r)"
    unfolding read_rects_Inr_iff .
  then have "input_ok s R" unfolding input_ok_def using n(1,2) by blast
  moreover have "alloc (length R)" using read_rects_length[OF n(4)] n(3) by simp
  ultimately show "input_ok s R \<and> alloc (length R)" by simp
next
  assume b: "input_ok s R \<and> alloc (length R)"
  then obtain n s0 s1 where n: "extract_int s = Some (n, s0)" "0 < n"
    "extract_records (nat n) s0 = Some (R, s1)" "\<forall>r\<in>set R. ordered r"
    unfolding input_ok_def by blast
  have r: "read_rects (nat n) 0 s0 = Inr R" unfolding read_rects_Inr_iff using n(3,4) by blast
  from read_rects_length[OF r] b have "alloc (nat n)" by simp
  then show "read_input alloc s = Inr R" unfolding read_input_def using n(1,2) r by simp
qed

lemma read_input_valid: "read_input alloc s = Inr R \<Longrightarrow> valid_instance R"
proof -
  assume a: "read_input alloc s = Inr R"
  then obtain n s' where n: "extract_int s = Some (n, s')" "0 < n" "read_rects (nat n) 0 s' = Inr R"
    unfolding read_input_def by (auto split: option.splits if_splits sum.splits)
  from read_rects_length[OF n(3)] n(2) have "R \<noteq> []" by auto
  moreover have "\<forall>r\<in>set R. ordered r" using n(3) unfolding read_rects_Inr_iff by simp
  ultimately show ?thesis unfolding valid_instance_def ordered_def by simp
qed

lemma read_input_first_iff:
  "read_input alloc s = Inl (Diagnosed NotPositiveN) \<longleftrightarrow>
     extract_int s = None \<or> (\<exists>n s0. extract_int s = Some (n, s0) \<and> n \<le> 0)"
  unfolding read_input_def using read_rects_not_first
  by (auto split: option.splits sum.splits)

lemma read_input_Diagnosed_iff:
  assumes "d \<noteq> NotPositiveN"
  shows "read_input alloc s = Inl (Diagnosed d) \<longleftrightarrow>
     (\<exists>n s0. extract_int s = Some (n, s0) \<and> 0 < n \<and> alloc (nat n) \<and>
        read_rects (nat n) 0 s0 = Inl d)"
  using assms unfolding read_input_def by (auto split: option.splits sum.splits)

lemma extract4_iff:
  "extract4 t = Some (r, rest) \<longleftrightarrow>
     (\<exists>t1 t2 t3. extract_ll t = Some (xl r, t1) \<and> extract_ll t1 = Some (yb r, t2) \<and>
        extract_ll t2 = Some (xr r, t3) \<and> extract_ll t3 = Some (yt r, rest))"
  unfolding extract4_def by (cases r) (auto split: option.splits)

lemma read_input_AllocFailed_iff:
  "read_input alloc s = Inl AllocFailed \<longleftrightarrow>
     (\<exists>n s0. extract_int s = Some (n, s0) \<and> 0 < n \<and> \<not> alloc (nat n))"
  unfolding read_input_def by (auto split: option.splits sum.splits)

lemma main_valid:
  assumes "valid_instance R" "read_input (can_alloc e) s = Inr R" "engine_crash e R = None"
  shows "\<exists>ids. reconstruct R = Some ids \<and>
          main e s = Some (Solved (val (fst (engine R))) (map (\<lambda>rid. (rid, R ! nat rid)) ids))"
proof -
  from reconstruct_facts[OF assms(1)] obtain ids where "reconstruct R = Some ids" by blast
  then show ?thesis using assms(2,3) unfolding main_def by simp
qed

lemma main_total: "main e s \<noteq> None"
proof (cases "read_input (can_alloc e) s")
  case (Inl st)
  then show ?thesis unfolding main_def by (cases st) simp_all
next
  case (Inr R)
  show ?thesis
  proof (cases "engine_crash e R")
    case None
    from main_valid[OF read_input_valid[OF Inr] Inr None] show ?thesis by auto
  next
    case (Some c)
    then show ?thesis using Inr unfolding main_def by simp
  qed
qed

lemma main_Failed_iff: "main e s = Some (Failed d) \<longleftrightarrow> read_input (can_alloc e) s = Inl (Diagnosed d)"
proof (cases "read_input (can_alloc e) s")
  case (Inl st)
  then show ?thesis unfolding main_def by (cases st) auto
next
  case (Inr R)
  then show ?thesis unfolding main_def by (auto split: option.splits)
qed

lemma main_Solved_iff:
  "(\<exists>v ls. main e s = Some (Solved v ls)) \<longleftrightarrow>
     (\<exists>R. read_input (can_alloc e) s = Inr R \<and> engine_crash e R = None)"
proof
  assume "\<exists>v ls. main e s = Some (Solved v ls)"
  then obtain v ls where m: "main e s = Some (Solved v ls)" by blast
  show "\<exists>R. read_input (can_alloc e) s = Inr R \<and> engine_crash e R = None"
  proof (cases "read_input (can_alloc e) s")
    case (Inl st)
    then show ?thesis using m unfolding main_def by (cases st) simp_all
  next
    case (Inr R)
    then have "engine_crash e R = None" using m unfolding main_def by (auto split: option.splits)
    then show ?thesis using Inr by blast
  qed
next
  assume "\<exists>R. read_input (can_alloc e) s = Inr R \<and> engine_crash e R = None"
  then obtain R where R: "read_input (can_alloc e) s = Inr R" "engine_crash e R = None" by blast
  from main_valid[OF read_input_valid[OF R(1)] R] show "\<exists>v ls. main e s = Some (Solved v ls)"
    by blast
qed

lemma main_Crashed_iff:
  "main e s = Some (Crashed c) \<longleftrightarrow>
     (c = BadAlloc \<and> read_input (can_alloc e) s = Inl AllocFailed) \<or>
     (\<exists>R. read_input (can_alloc e) s = Inr R \<and> engine_crash e R = Some c)"
proof (cases "read_input (can_alloc e) s")
  case (Inl st)
  then show ?thesis unfolding main_def by (cases st) auto
next
  case (Inr R)
  show ?thesis
  proof (cases "engine_crash e R")
    case None
    from main_valid[OF read_input_valid[OF Inr] Inr None] show ?thesis using Inr None by auto
  next
    case (Some c')
    then show ?thesis using Inr unfolding main_def by auto
  qed
qed

section \<open>The scenario, evaluated\<close>

lemma scenario_valid: "valid_instance scenario"
  by (simp add: valid_instance_def scenario_def)

lemma scenario_root: "root_window scenario = (0, 3, 0, 4)"
  by code_simp

lemma scenario_memo_root:
  "snd (engine scenario) (0, 3, 0, 4) = Some \<lparr>val = 2, ch = \<lparr>type = 2, param = 2\<rparr>\<rparr>"
  by code_simp

lemma scenario_memo_left:
  "snd (engine scenario) (0, 2, 0, 4) = Some \<lparr>val = 2, ch = \<lparr>type = 3, param = 2\<rparr>\<rparr>"
  by code_simp

lemma scenario_memo_right:
  "snd (engine scenario) (2, 3, 0, 4) = Some \<lparr>val = 0, ch = \<lparr>type = 0, param = - 1\<rparr>\<rparr>"
  by code_simp

lemma scenario_memo_bottom:
  "snd (engine scenario) (0, 2, 0, 2) = Some \<lparr>val = 1, ch = \<lparr>type = 1, param = 0\<rparr>\<rparr>"
  by code_simp

lemma scenario_memo_top:
  "snd (engine scenario) (0, 2, 2, 4) = Some \<lparr>val = 1, ch = \<lparr>type = 1, param = 2\<rparr>\<rparr>"
  by code_simp

lemma scenario_visits:
  "recon_visits (snd (engine scenario)) k0 k \<Longrightarrow>
   k0 \<in> {(0, 3, 0, 4), (0, 2, 0, 4), (2, 3, 0, 4), (0, 2, 0, 2), (0, 2, 2, 4)} \<Longrightarrow>
   k \<in> {(0, 3, 0, 4), (0, 2, 0, 4), (2, 3, 0, 4), (0, 2, 0, 2), (0, 2, 2, 4)}"
proof (induction rule: recon_visits.induct)
  case (here k)
  then show ?case .
next
  case (vleft xi xj yk yl A k)
  from vleft.prems vleft.hyps(1,2,3,4)
  have "(xi, param (ch A), yk, yl) = (0, 2, 0, 4)"
    using scenario_memo_root scenario_memo_left scenario_memo_right scenario_memo_bottom
      scenario_memo_top by auto
  then show ?case using vleft.IH by simp
next
  case (vright xi xj yk yl A k)
  from vright.prems vright.hyps(1,2,3,4)
  have "(param (ch A), xj, yk, yl) = (2, 3, 0, 4)"
    using scenario_memo_root scenario_memo_left scenario_memo_right scenario_memo_bottom
      scenario_memo_top by auto
  then show ?case using vright.IH by simp
next
  case (hbottom xi xj yk yl A k)
  from hbottom.prems hbottom.hyps(1,2,3,4,5)
  have "(xi, xj, yk, param (ch A)) = (0, 2, 0, 2)"
    using scenario_memo_root scenario_memo_left scenario_memo_right scenario_memo_bottom
      scenario_memo_top by auto
  then show ?case using hbottom.IH by simp
next
  case (htop xi xj yk yl A k)
  from htop.prems htop.hyps(1,2,3,4,5)
  have "(xi, xj, param (ch A), yl) = (0, 2, 2, 4)"
    using scenario_memo_root scenario_memo_left scenario_memo_right scenario_memo_bottom
      scenario_memo_top by auto
  then show ?case using htop.IH by simp
qed

section \<open>The claims\<close>

text \<open>
  C1. For every valid instance the reconstruction started at the full bounding window
  returns, and the number of ids it produces equals the value stored in the table for that
  root window, which is the value \<open>solve\<close> returned for it.
\<close>

theorem C1_reconstruction_length:
  assumes "valid_instance R"
  shows "\<exists>ids. reconstruct R = Some ids \<and> int (length ids) = val (fst (engine R)) \<and>
               snd (engine R) (root_window R) = Some (fst (engine R))"
proof -
  from engine_facts[OF assms] obtain m' where m':
    "engine R = (solve0 (index_all R) 0 (int (length (compress_xs R)) - 1)
                                 0 (int (length (compress_ys R)) - 1), m')"
    "m' (root_window R) = Some (solve0 (index_all R) 0 (int (length (compress_xs R)) - 1)
                                 0 (int (length (compress_ys R)) - 1))" by blast
  from reconstruct_facts[OF assms] obtain ids where ids: "reconstruct R = Some ids"
    "recon_good (index_all R) (snd (engine R)) 0 (int (length (compress_xs R)) - 1)
                                 0 (int (length (compress_ys R)) - 1) ids" by blast
  from ids(2) have "int (length ids) = val (fst (engine R))"
    unfolding recon_good_def using m'(1) by simp
  then show ?thesis using ids(1) m' by simp
qed

theorem C1_reconstruction_length_witness:
  "valid_instance scenario \<and>
   (\<exists>ids. reconstruct scenario = Some ids \<and> int (length ids) = val (fst (engine scenario)) \<and>
          snd (engine scenario) (root_window scenario) = Some (fst (engine scenario)))"
  using C1_reconstruction_length[of scenario] by (simp add: valid_instance_def scenario_def)

text \<open>
  C2. For every valid instance the ids returned by the reconstruction are distinct, any two
  of the selected rectangles are non-overlapping in the open-set sense (\<open>rectanglesOverlap\<close>
  is false for them: their interiors are disjoint, a shared edge is allowed), each id is
  named by a stored leaf choice of the table, and a rectangle named by a stored leaf choice
  lies inside the window of that entry, in grid indices and in coordinates.
\<close>

theorem C2_selection_independent:
  assumes "valid_instance R" "reconstruct R = Some ids"
  shows "distinct ids \<and>
         (\<forall>a\<in>set ids. \<forall>b\<in>set ids. a \<noteq> b \<longrightarrow> \<not> rectanglesOverlap (R ! nat a) (R ! nat b)) \<and>
         (\<forall>rid\<in>set ids. 0 \<le> rid \<and> nat rid < length R \<and>
            (\<exists>k. snd (engine R) k = Some \<lparr>val = 1, ch = \<lparr>type = 1, param = rid\<rparr>\<rparr>)) \<and>
         (\<forall>k a. snd (engine R) k = Some a \<and> type (ch a) = 1 \<longrightarrow>
            0 \<le> param (ch a) \<and> nat (param (ch a)) < length R \<and> lies_inside R (nat (param (ch a))) k)"
proof -
  let ?X = "int (length (compress_xs R)) - 1" and ?Y = "int (length (compress_ys R)) - 1"
  let ?m = "snd (engine R)"
  from reconstruct_facts[OF assms(1)] assms(2)
  have good: "recon_good (index_all R) ?m 0 ?X 0 ?Y ids" by simp
  from engine_facts[OF assms(1)] have inv: "memo_inv (index_all R) ?m" by auto
  have lf: "leaf_in (index_all R) ?m 0 ?X 0 ?Y rid" if "rid \<in> set ids" for rid
    using good that unfolding recon_good_def by blast
  have rng: "0 \<le> rid \<and> nat rid < length R" if "rid \<in> set ids" for rid
    using lf[OF that] unfolding leaf_in_def length_index_all by blast
  have d: "distinct ids" using good unfolding recon_good_def by blast
  have ov: "\<not> rectanglesOverlap (R ! nat a) (R ! nat b)" if "a \<in> set ids" "b \<in> set ids" "a \<noteq> b" for a b
  proof -
    have "grid_disjoint (index_all R ! nat a) (index_all R ! nat b)"
      using good that unfolding recon_good_def by blast
    then show ?thesis using rng[OF that(1)] rng[OF that(2)]
      by (intro grid_disjoint_real[OF assms(1)]) simp_all
  qed
  have nm: "\<exists>k. ?m k = Some \<lparr>val = 1, ch = \<lparr>type = 1, param = rid\<rparr>\<rparr>" if "rid \<in> set ids" for rid
    using lf[OF that] unfolding leaf_in_def by blast
  have ins: "0 \<le> param (ch a) \<and> nat (param (ch a)) < length R \<and> lies_inside R (nat (param (ch a))) k"
    if "?m k = Some a" "type (ch a) = 1" for k a
  proof -
    obtain xi xj yk yl where k: "k = (xi, xj, yk, yl)" by (cases k) auto
    from memo_leaf_exact[OF inv that(1)[unfolded k] that(2)]
    have e: "0 \<le> param (ch a)" "nat (param (ch a)) < length R"
      "exactMatch (index_all R) (nat (param (ch a))) xi xj yk yl"
      unfolding length_index_all by simp_all
    from exact_lies_inside[OF assms(1) e(2,3)] e(1,2) show ?thesis unfolding k by simp
  qed
  show ?thesis using d ov rng nm ins by blast
qed

theorem C2_selection_independent_witness:
  "valid_instance scenario \<and> reconstruct scenario = Some [0, 2] \<and>
   distinct [0, 2 :: int] \<and>
   \<not> rectanglesOverlap (scenario ! nat 0) (scenario ! nat 2) \<and>
   snd (engine scenario) (0, 2, 0, 2) = Some \<lparr>val = 1, ch = \<lparr>type = 1, param = 0\<rparr>\<rparr> \<and>
   lies_inside scenario (nat 0) (0, 2, 0, 2)"
proof -
  have v: "valid_instance scenario" by (simp add: valid_instance_def scenario_def)
  have r: "reconstruct scenario = Some [0, 2]" by code_simp
  note c = C2_selection_independent[OF v r]
  from c have 1: "distinct [0, 2 :: int]" by blast
  from c have 2: "\<not> rectanglesOverlap (scenario ! nat 0) (scenario ! nat 2)" by simp
  from c have "type (ch \<lparr>val = 1, ch = \<lparr>type = 1, param = 0\<rparr>\<rparr>) = 1 \<longrightarrow>
      lies_inside scenario (nat (param (ch \<lparr>val = 1, ch = \<lparr>type = 1, param = 0\<rparr>\<rparr>))) (0, 2, 0, 2)"
    using scenario_memo_bottom by blast
  then have 3: "lies_inside scenario (nat 0) (0, 2, 0, 2)" by simp
  show ?thesis using v r 1 2 3 scenario_memo_bottom by blast
qed

text \<open>
  C3. The scenario R0 = (0,0,2,2), R1 = (1,1,3,3), R2 = (0,2,2,4). The specification
  expects the reconstruction to start with a horizontal cut near y = 2 and then to resolve
  the window of R0 and R1 to R0. The engine does return 2 with R0 and R2 selected, but the
  choice stored for the root is the vertical cut at column 2 (x = 2), which is met before
  any horizontal cut and is never strictly beaten; it is not a horizontal cut, and the
  reconstruction never enters the window below y = 2 that spans R0 and R1 (grid window
  (0,3,0,2)).
\<close>

theorem C3_scenario_counterexample:
  "fst (engine scenario) = \<lparr>val = 2, ch = \<lparr>type = 2, param = 2\<rparr>\<rparr> \<and>
   type (ch (fst (engine scenario))) \<noteq> 3 \<and>
   \<not> recon_visits (snd (engine scenario)) (root_window scenario) (0, 3, 0, 2)"
proof -
  have 1: "fst (engine scenario) = \<lparr>val = 2, ch = \<lparr>type = 2, param = 2\<rparr>\<rparr>" by code_simp
  have 2: "type (ch (fst (engine scenario))) \<noteq> 3" unfolding 1 by simp
  have 3: "\<not> recon_visits (snd (engine scenario)) (root_window scenario) (0, 3, 0, 2)"
  proof
    assume "recon_visits (snd (engine scenario)) (root_window scenario) (0, 3, 0, 2)"
    from scenario_visits[OF this] show False unfolding scenario_root by simp
  qed
  show ?thesis using 1 2 3 by blast
qed

text \<open>
  C3, as the program behaves. On the scenario the engine returns value 2 and the
  reconstruction yields the ids 0 and 2 (R0 and R2; R1 is excluded). The root window
  (0,3,0,4) stores the vertical cut at column 2, which is x = 2; its right part (2,3,0,4)
  holds no rectangle and has value 0; its left part (0,2,0,4) stores the horizontal cut at
  row 2, which is y = 2, separating the window (0,2,0,2), a leaf for R0, from the window
  (0,2,2,4), a leaf for R2.
\<close>

theorem C3_scenario_vertical_first:
  "val (fst (engine scenario)) = 2 \<and>
   reconstruct scenario = Some [0, 2] \<and>
   root_window scenario = (0, 3, 0, 4) \<and>
   snd (engine scenario) (0, 3, 0, 4) = Some \<lparr>val = 2, ch = \<lparr>type = 2, param = 2\<rparr>\<rparr> \<and>
   compress_xs scenario ! 2 = 2 \<and>
   snd (engine scenario) (2, 3, 0, 4) = Some \<lparr>val = 0, ch = \<lparr>type = 0, param = - 1\<rparr>\<rparr> \<and>
   snd (engine scenario) (0, 2, 0, 4) = Some \<lparr>val = 2, ch = \<lparr>type = 3, param = 2\<rparr>\<rparr> \<and>
   compress_ys scenario ! 2 = 2 \<and>
   snd (engine scenario) (0, 2, 0, 2) = Some \<lparr>val = 1, ch = \<lparr>type = 1, param = 0\<rparr>\<rparr> \<and>
   snd (engine scenario) (0, 2, 2, 4) = Some \<lparr>val = 1, ch = \<lparr>type = 1, param = 2\<rparr>\<rparr>"
proof -
  have 1: "val (fst (engine scenario)) = 2" by code_simp
  have 2: "reconstruct scenario = Some [0, 2]" by code_simp
  have 3: "compress_xs scenario ! 2 = 2" by code_simp
  have 4: "compress_ys scenario ! 2 = 2" by code_simp
  show ?thesis
    using 1 2 3 4 scenario_root scenario_memo_root scenario_memo_right scenario_memo_left
      scenario_memo_bottom scenario_memo_top by blast
qed

text \<open>
  C4. Pruning. On a table reached in a run, for a non-degenerate window in which no
  rectangle's grid bounds are fully contained (\<open>windowHasAnyRect\<close> is the containment test
  leftIdx \<ge> xi, rightIdx \<le> xj, bottomIdx \<ge> yk, topIdx \<le> yl over all rectangles), \<open>solve\<close>
  returns (0, none) and the table it leaves is the old one with (0, none) stored for the
  window: no other entry is written, so no cut was explored.
\<close>

theorem C4_pruning:
  assumes "reachable_memo RIv m" "xi < xj" "yk < yl"
    and "\<not> (\<exists>rid<length RIv. ixl (RIv ! rid) \<ge> xi \<and> ixr (RIv ! rid) \<le> xj \<and>
                              iyb (RIv ! rid) \<ge> yk \<and> iyt (RIv ! rid) \<le> yl)"
  shows "solve RIv m xi xj yk yl = (Answer0, m((xi, xj, yk, yl) \<mapsto> Answer0))"
proof -
  have nohas: "\<not> windowHasAnyRect RIv xi xj yk yl"
    using assms(4) unfolding windowHasAnyRect_iff by blast
  show ?thesis
  proof (cases "m (xi, xj, yk, yl)")
    case None
    then show ?thesis using assms(2,3) nohas by (subst solve.simps) simp
  next
    case (Some a)
    from memo_inv_solve0[OF reachable_memo_inv[OF assms(1)] Some]
    have "a = Answer0" using assms(2,3) nohas by (simp add: solve0_unfold)
    then have "m((xi, xj, yk, yl) \<mapsto> Answer0) = m" using Some by (simp add: map_upd_triv)
    then show ?thesis using Some \<open>a = Answer0\<close> assms(2,3) by (subst solve.simps) simp
  qed
qed

theorem C4_pruning_witness:
  "reachable_memo (index_all scenario) Map.empty \<and> (2::int) < 3 \<and> (0::int) < 4 \<and>
   \<not> (\<exists>rid<length (index_all scenario).
        ixl (index_all scenario ! rid) \<ge> 2 \<and> ixr (index_all scenario ! rid) \<le> 3 \<and>
        iyb (index_all scenario ! rid) \<ge> 0 \<and> iyt (index_all scenario ! rid) \<le> 4) \<and>
   solve (index_all scenario) Map.empty 2 3 0 4 = (Answer0, [(2, 3, 0, 4) \<mapsto> Answer0])"
proof -
  have nh: "\<not> windowHasAnyRect (index_all scenario) 2 3 0 4" by code_simp
  have h: "\<not> (\<exists>rid<length (index_all scenario).
        ixl (index_all scenario ! rid) \<ge> 2 \<and> ixr (index_all scenario ! rid) \<le> 3 \<and>
        iyb (index_all scenario ! rid) \<ge> 0 \<and> iyt (index_all scenario ! rid) \<le> 4)"
    using nh unfolding windowHasAnyRect_iff by blast
  have r: "reachable_memo (index_all scenario) Map.empty" by (rule reachable_memo.start)
  have "solve (index_all scenario) Map.empty 2 3 0 4 = (Answer0, [(2, 3, 0, 4) \<mapsto> Answer0])"
    using h by (intro C4_pruning[OF r]) simp_all
  then show ?thesis using h r by simp
qed

text \<open>
  C5. Tie-break. For a grid whose rectangles have leftIdx < rightIdx and bottomIdx < topIdx,
  on a table reached in a run, the answer \<open>solve\<close> returns and stores for a non-degenerate,
  non-pruned window is the earliest candidate of maximal value in the enumeration
  \<open>candidates\<close>: the exactly matching rectangles by increasing index (value 1), then the
  vertical cuts by increasing column, then the horizontal cuts by increasing row, each cut
  valued by the sum of the values of its two sub-windows. Every earlier candidate has a
  strictly smaller value, so a later candidate of equal value never replaces it, and a
  leaf is kept unless a cut is strictly better. The value of a sub-window is the one
  \<open>solve\<close> returns for it on whatever table a run has reached (last part).
\<close>

theorem C5_earliest_maximum:
  assumes "reachable_memo RIv m" "proper_RI RIv" "xi < xj" "yk < yl"
    and "windowHasAnyRect RIv xi xj yk yl"
  shows "first_max (candidates RIv xi xj yk yl) (fst (solve RIv m xi xj yk yl)) \<and>
         snd (solve RIv m xi xj yk yl) (xi, xj, yk, yl) = Some (fst (solve RIv m xi xj yk yl)) \<and>
         (\<forall>m' a b c d. reachable_memo RIv m' \<longrightarrow> fst (solve RIv m' a b c d) = solve0 RIv a b c d)"
proof -
  have tr: "fst (solve RIv m' a b c d) = solve0 RIv a b c d" if "reachable_memo RIv m'" for m' a b c d
    using solve_reachable[OF that, of a b c d] by (metis fst_conv)
  from solve_reachable[OF assms(1), of xi xj yk yl] assms(3,4)
  have st: "snd (solve RIv m xi xj yk yl) (xi, xj, yk, yl) = Some (solve0 RIv xi xj yk yl)"
    by simp
  have c: "solve0 RIv xi xj yk yl = cut_search RIv xi xj yk yl"
    using assms(3,4,5) by (simp add: solve0_unfold)
  have "val Answer0 < val (cut_search RIv xi xj yk yl)"
    using solve0_pos[OF assms(2,3,4,5)] unfolding c by (simp add: Answer0_def)
  from first_max_tail[OF cut_search_first_max this]
  show ?thesis unfolding tr[OF assms(1)] st c using tr by simp
qed

theorem C5_earliest_maximum_witness:
  "reachable_memo (index_all scenario) Map.empty \<and> proper_RI (index_all scenario) \<and>
   (0::int) < 3 \<and> (0::int) < 4 \<and> windowHasAnyRect (index_all scenario) 0 3 0 4 \<and>
   candidates (index_all scenario) 0 3 0 4 =
     [\<lparr>val = 1, ch = \<lparr>type = 2, param = 1\<rparr>\<rparr>, \<lparr>val = 2, ch = \<lparr>type = 2, param = 2\<rparr>\<rparr>,
      \<lparr>val = 1, ch = \<lparr>type = 3, param = 1\<rparr>\<rparr>, \<lparr>val = 2, ch = \<lparr>type = 3, param = 2\<rparr>\<rparr>,
      \<lparr>val = 1, ch = \<lparr>type = 3, param = 3\<rparr>\<rparr>] \<and>
   first_max (candidates (index_all scenario) 0 3 0 4)
     (fst (solve (index_all scenario) Map.empty 0 3 0 4)) \<and>
   snd (solve (index_all scenario) Map.empty 0 3 0 4) (0, 3, 0, 4) =
     Some (fst (solve (index_all scenario) Map.empty 0 3 0 4)) \<and>
   fst (solve (index_all scenario) Map.empty 0 3 0 4) = \<lparr>val = 2, ch = \<lparr>type = 2, param = 2\<rparr>\<rparr>"
proof -
  have r: "reachable_memo (index_all scenario) Map.empty" by (rule reachable_memo.start)
  have p: "proper_RI (index_all scenario)" unfolding proper_RI_def by code_simp
  have h: "windowHasAnyRect (index_all scenario) 0 3 0 4" by code_simp
  have c: "candidates (index_all scenario) 0 3 0 4 =
     [\<lparr>val = 1, ch = \<lparr>type = 2, param = 1\<rparr>\<rparr>, \<lparr>val = 2, ch = \<lparr>type = 2, param = 2\<rparr>\<rparr>,
      \<lparr>val = 1, ch = \<lparr>type = 3, param = 1\<rparr>\<rparr>, \<lparr>val = 2, ch = \<lparr>type = 3, param = 2\<rparr>\<rparr>,
      \<lparr>val = 1, ch = \<lparr>type = 3, param = 3\<rparr>\<rparr>]" by code_simp
  have f: "fst (solve (index_all scenario) Map.empty 0 3 0 4) = \<lparr>val = 2, ch = \<lparr>type = 2, param = 2\<rparr>\<rparr>"
    by code_simp
  from C5_earliest_maximum[OF r p _ _ h] have
    "first_max (candidates (index_all scenario) 0 3 0 4)
       (fst (solve (index_all scenario) Map.empty 0 3 0 4))"
    "snd (solve (index_all scenario) Map.empty 0 3 0 4) (0, 3, 0, 4) =
       Some (fst (solve (index_all scenario) Map.empty 0 3 0 4))" by simp_all
  then show ?thesis using r p h c f by simp
qed

text \<open>
  C7. On a table reached in a run, the value \<open>solve\<close> computes for any window lies between
  0 and the number n of input rectangles, and so does the value of every entry of the
  table it leaves.
\<close>

theorem C7_value_bounds:
  assumes "reachable_memo RIv m"
  shows "0 \<le> val (fst (solve RIv m xi xj yk yl)) \<and>
         val (fst (solve RIv m xi xj yk yl)) \<le> int (length RIv) \<and>
         (\<forall>k b. snd (solve RIv m xi xj yk yl) k = Some b \<longrightarrow> 0 \<le> val b \<and> val b \<le> int (length RIv))"
proof -
  have b: "0 \<le> val (solve0 RIv a b c d) \<and> val (solve0 RIv a b c d) \<le> int (length RIv)" for a b c d
    using solve0_bounds[of RIv a b c d] inside_count_le[of RIv a b c d] by simp
  from solve_reachable[OF assms, of xi xj yk yl]
  have s: "fst (solve RIv m xi xj yk yl) = solve0 RIv xi xj yk yl"
    and inv: "memo_inv RIv (snd (solve RIv m xi xj yk yl))" by (metis fst_conv, simp)
  have "0 \<le> val e \<and> val e \<le> int (length RIv)" if "snd (solve RIv m xi xj yk yl) k = Some e" for k e
  proof -
    obtain a1 b1 c1 d1 where k: "k = (a1, b1, c1, d1)" by (cases k) auto
    from memo_inv_solve0[OF inv that[unfolded k]] b show ?thesis by simp
  qed
  then show ?thesis using b s by simp
qed

theorem C7_value_bounds_witness:
  "reachable_memo (index_all scenario) Map.empty \<and>
   0 \<le> val (fst (solve (index_all scenario) Map.empty 0 3 0 4)) \<and>
   val (fst (solve (index_all scenario) Map.empty 0 3 0 4)) \<le> int (length (index_all scenario)) \<and>
   snd (solve (index_all scenario) Map.empty 0 3 0 4) (0, 2, 0, 4) =
     Some \<lparr>val = 2, ch = \<lparr>type = 3, param = 2\<rparr>\<rparr> \<and>
   0 \<le> val \<lparr>val = 2, ch = \<lparr>type = 3, param = 2\<rparr>\<rparr> \<and>
   val \<lparr>val = 2, ch = \<lparr>type = 3, param = 2\<rparr>\<rparr> \<le> int (length (index_all scenario))"
proof -
  have r: "reachable_memo (index_all scenario) Map.empty" by (rule reachable_memo.start)
  have e: "snd (solve (index_all scenario) Map.empty 0 3 0 4) (0, 2, 0, 4) =
     Some \<lparr>val = 2, ch = \<lparr>type = 3, param = 2\<rparr>\<rparr>" by code_simp
  from C7_value_bounds[OF r, of 0 3 0 4] r e show ?thesis by blast
qed

text \<open>
  C8. The specification wants every malformed input answered by a diagnostic and exit
  status 1, and the solution block printed for well-formed input only. Two inputs show
  otherwise. The program reads numbers by formatted extraction, which stops at the first
  character that cannot continue a number: in the input \<open>1 0 0 1 1x\<close> the last token of
  the record, \<open>1x\<close>, is not numeric, yet it is read as 1 and the solution block is printed.
  And the program allocates the vector of n rectangles before it reads any record: on the
  input \<open>2147483647\<close>, whose records are all missing, a machine that cannot allocate that
  vector ends the run by \<^verbatim>\<open>abort\<close>, with no diagnostic naming a line or a record.
\<close>

theorem C8_input_counterexample:
  "tokens ''1 0 0 1 1x'' = [''1'', ''0'', ''0'', ''1'', ''1x''] \<and>
   \<not> numeric_token ''1x'' \<and>
   main roomy ''1 0 0 1 1x'' = Some (Solved 1 [(0, \<lparr>xl = 0, yb = 0, xr = 1, yt = 1\<rparr>)]) \<and>
   tokens ''2147483647'' = [''2147483647''] \<and>
   main cramped ''2147483647'' = Some (Crashed BadAlloc)"
proof -
  have 1: "tokens ''1 0 0 1 1x'' = [''1'', ''0'', ''0'', ''1'', ''1x'']" by code_simp
  have 2: "\<not> numeric_token ''1x''" by code_simp
  have 3: "main roomy ''1 0 0 1 1x'' = Some (Solved 1 [(0, \<lparr>xl = 0, yb = 0, xr = 1, yt = 1\<rparr>)])"
    by code_simp
  have 4: "tokens ''2147483647'' = [''2147483647'']" by code_simp
  have x: "extract_int ''2147483647'' = Some (2147483647, [])" by code_simp
  have 5: "main cramped ''2147483647'' = Some (Crashed BadAlloc)"
    unfolding main_def read_input_def x by (simp add: cramped_def)
  show ?thesis using 1 2 3 4 5 by blast
qed

text \<open>
  C8, as the program behaves, on a machine \<open>e\<close>. Every run returns, in exactly one of
  three ways.
  The solution block is printed exactly when the extraction of n succeeds with n > 0, the
  extraction of the 4n numbers of the n records succeeds, every record has xl < xr and
  yb < yt (\<open>input_ok\<close>), and memory suffices for the n rectangles and for the engine.
  The run crashes for lack of memory, with no diagnostic of the program's own and no
  solution output, exactly when n is read and positive and the vector of n rectangles
  cannot be allocated (whatever the records are), or the input is read in full and the
  engine runs out of memory or of stack.
  The run ends with exit status 1 and one diagnostic, before any engine work and with no
  solution output, in the remaining cases: the diagnostic is about the first line exactly
  when n cannot be read or is not positive; it names line j+2 exactly when the vector is
  allocated, the records before record j are read and well ordered and the extraction of
  record j fails; it names rectangle j exactly when the vector is allocated, the records
  before it are read and well ordered and record j is read and violates xl < xr and
  yb < yt. So an input that is not \<open>input_ok\<close> never gets a solution block and always a
  non-zero exit status.
  What extraction accepts is \<open>reads_as\<close>: white space, an optional sign, digits up to the
  first character that is not a digit, with a value that fits the type (32 bits for n, 64
  bits for a bound); a record is four such extractions in a row.
\<close>

theorem C8_input_errors:
  "main e s \<noteq> None \<and>
   ((\<exists>v ls. main e s = Some (Solved v ls)) \<longleftrightarrow>
      (\<exists>R. input_ok s R \<and> can_alloc e (length R) \<and> engine_crash e R = None)) \<and>
   (\<forall>c. main e s = Some (Crashed c) \<longleftrightarrow>
      (c = BadAlloc \<and> (\<exists>n s0. extract_int s = Some (n, s0) \<and> 0 < n \<and> \<not> can_alloc e (nat n))) \<or>
      (\<exists>R. input_ok s R \<and> can_alloc e (length R) \<and> engine_crash e R = Some c)) \<and>
   (main e s = Some (Failed NotPositiveN) \<longleftrightarrow>
      extract_int s = None \<or> (\<exists>n s0. extract_int s = Some (n, s0) \<and> n \<le> 0)) \<and>
   (\<forall>l. main e s = Some (Failed (BadLine l)) \<longleftrightarrow>
      (\<exists>n s0 j R s1. extract_int s = Some (n, s0) \<and> 0 < n \<and> can_alloc e (nat n) \<and>
         j < nat n \<and> l = int j + 2 \<and>
         extract_records j s0 = Some (R, s1) \<and> (\<forall>r\<in>set R. ordered r) \<and> extract4 s1 = None)) \<and>
   (\<forall>l. main e s = Some (Failed (BadRect l)) \<longleftrightarrow>
      (\<exists>n s0 j R s1 r s2. extract_int s = Some (n, s0) \<and> 0 < n \<and> can_alloc e (nat n) \<and>
         j < nat n \<and> l = int j \<and>
         extract_records j s0 = Some (R, s1) \<and> (\<forall>r\<in>set R. ordered r) \<and>
         extract4 s1 = Some (r, s2) \<and> \<not> ordered r)) \<and>
   ((\<nexists>R. input_ok s R) \<longrightarrow>
      (\<exists>out. main e s = Some out \<and> exit_status out \<noteq> 0 \<and>
         (out = Crashed BadAlloc \<or> (\<exists>d. out = Failed d \<and> exit_status out = 1)))) \<and>
   (\<forall>t v rest. extract_int t = Some (v, rest) \<longleftrightarrow> reads_as (- (2 ^ 31)) (2 ^ 31 - 1) t v rest) \<and>
   (\<forall>t v rest. extract_ll t = Some (v, rest) \<longleftrightarrow> reads_as (- (2 ^ 63)) (2 ^ 63 - 1) t v rest) \<and>
   (\<forall>t r rest. extract4 t = Some (r, rest) \<longleftrightarrow>
      (\<exists>t1 t2 t3. extract_ll t = Some (xl r, t1) \<and> extract_ll t1 = Some (yb r, t2) \<and>
         extract_ll t2 = Some (xr r, t3) \<and> extract_ll t3 = Some (yt r, rest)))"
proof -
  have tot: "main e s \<noteq> None" by (rule main_total)
  have ok: "(\<exists>v ls. main e s = Some (Solved v ls)) \<longleftrightarrow>
      (\<exists>R. input_ok s R \<and> can_alloc e (length R) \<and> engine_crash e R = None)"
    unfolding main_Solved_iff read_input_Inr_iff by blast
  have ab: "main e s = Some (Crashed c) \<longleftrightarrow>
      (c = BadAlloc \<and> (\<exists>n s0. extract_int s = Some (n, s0) \<and> 0 < n \<and> \<not> can_alloc e (nat n))) \<or>
      (\<exists>R. input_ok s R \<and> can_alloc e (length R) \<and> engine_crash e R = Some c)" for c
    unfolding main_Crashed_iff read_input_Inr_iff read_input_AllocFailed_iff by blast
  have np: "main e s = Some (Failed NotPositiveN) \<longleftrightarrow>
      extract_int s = None \<or> (\<exists>n s0. extract_int s = Some (n, s0) \<and> n \<le> 0)"
    unfolding main_Failed_iff by (rule read_input_first_iff)
  have bl: "main e s = Some (Failed (BadLine l)) \<longleftrightarrow>
      (\<exists>n s0 j R s1. extract_int s = Some (n, s0) \<and> 0 < n \<and> can_alloc e (nat n) \<and>
         j < nat n \<and> l = int j + 2 \<and>
         extract_records j s0 = Some (R, s1) \<and> (\<forall>r\<in>set R. ordered r) \<and> extract4 s1 = None)" for l
  proof
    assume "main e s = Some (Failed (BadLine l))"
    then obtain n s0 where n: "extract_int s = Some (n, s0)" "0 < n" "can_alloc e (nat n)"
      "read_rects (nat n) 0 s0 = Inl (BadLine l)"
      unfolding main_Failed_iff using read_input_Diagnosed_iff[of "BadLine l"] by auto
    from read_rects_diag[OF n(4)] obtain j R s1 where "j < nat n"
      "extract_records j s0 = Some (R, s1)" "\<forall>r\<in>set R. ordered r"
      "l = int j + 2" "extract4 s1 = None" by auto
    then show "\<exists>n s0 j R s1. extract_int s = Some (n, s0) \<and> 0 < n \<and> can_alloc e (nat n) \<and>
         j < nat n \<and> l = int j + 2 \<and>
         extract_records j s0 = Some (R, s1) \<and> (\<forall>r\<in>set R. ordered r) \<and> extract4 s1 = None"
      using n(1,2,3) by blast
  next
    assume "\<exists>n s0 j R s1. extract_int s = Some (n, s0) \<and> 0 < n \<and> can_alloc e (nat n) \<and>
         j < nat n \<and> l = int j + 2 \<and>
         extract_records j s0 = Some (R, s1) \<and> (\<forall>r\<in>set R. ordered r) \<and> extract4 s1 = None"
    then obtain n s0 j R s1 where h: "extract_int s = Some (n, s0)" "0 < n" "j < nat n"
      "l = int j + 2" "extract_records j s0 = Some (R, s1)" "\<forall>r\<in>set R. ordered r"
      "extract4 s1 = None" "can_alloc e (nat n)" by blast
    from read_rects_bad_line[OF h(3,5,6,7), of 0] h(4)
    have "read_rects (nat n) 0 s0 = Inl (BadLine l)" by simp
    then show "main e s = Some (Failed (BadLine l))"
      unfolding main_Failed_iff using read_input_Diagnosed_iff[of "BadLine l"] h(1,2,8) by simp
  qed
  have br: "main e s = Some (Failed (BadRect l)) \<longleftrightarrow>
      (\<exists>n s0 j R s1 r s2. extract_int s = Some (n, s0) \<and> 0 < n \<and> can_alloc e (nat n) \<and>
         j < nat n \<and> l = int j \<and>
         extract_records j s0 = Some (R, s1) \<and> (\<forall>r\<in>set R. ordered r) \<and>
         extract4 s1 = Some (r, s2) \<and> \<not> ordered r)" for l
  proof
    assume "main e s = Some (Failed (BadRect l))"
    then obtain n s0 where n: "extract_int s = Some (n, s0)" "0 < n" "can_alloc e (nat n)"
      "read_rects (nat n) 0 s0 = Inl (BadRect l)"
      unfolding main_Failed_iff using read_input_Diagnosed_iff[of "BadRect l"] by auto
    from read_rects_diag[OF n(4)] obtain j R s1 r s2 where "j < nat n"
      "extract_records j s0 = Some (R, s1)" "\<forall>r\<in>set R. ordered r"
      "l = int j" "extract4 s1 = Some (r, s2)" "\<not> ordered r" by auto
    then show "\<exists>n s0 j R s1 r s2. extract_int s = Some (n, s0) \<and> 0 < n \<and> can_alloc e (nat n) \<and>
         j < nat n \<and> l = int j \<and>
         extract_records j s0 = Some (R, s1) \<and> (\<forall>r\<in>set R. ordered r) \<and>
         extract4 s1 = Some (r, s2) \<and> \<not> ordered r"
      using n(1,2,3) by blast
  next
    assume "\<exists>n s0 j R s1 r s2. extract_int s = Some (n, s0) \<and> 0 < n \<and> can_alloc e (nat n) \<and>
         j < nat n \<and> l = int j \<and>
         extract_records j s0 = Some (R, s1) \<and> (\<forall>r\<in>set R. ordered r) \<and>
         extract4 s1 = Some (r, s2) \<and> \<not> ordered r"
    then obtain n s0 j R s1 r s2 where h: "extract_int s = Some (n, s0)" "0 < n" "j < nat n"
      "l = int j" "extract_records j s0 = Some (R, s1)" "\<forall>r\<in>set R. ordered r"
      "extract4 s1 = Some (r, s2)" "\<not> ordered r" "can_alloc e (nat n)" by blast
    from read_rects_bad_rect[OF h(3,5,6,7,8), of 0] h(4)
    have "read_rects (nat n) 0 s0 = Inl (BadRect l)" by simp
    then show "main e s = Some (Failed (BadRect l))"
      unfolding main_Failed_iff using read_input_Diagnosed_iff[of "BadRect l"] h(1,2,9) by simp
  qed
  have bad: "\<exists>out. main e s = Some out \<and> exit_status out \<noteq> 0 \<and>
         (out = Crashed BadAlloc \<or> (\<exists>d. out = Failed d \<and> exit_status out = 1))" if "\<nexists>R. input_ok s R"
  proof -
    from that have no: "\<nexists>R. read_input (can_alloc e) s = Inr R" unfolding read_input_Inr_iff by blast
    then obtain st where st: "read_input (can_alloc e) s = Inl st"
      by (cases "read_input (can_alloc e) s") auto
    show ?thesis
    proof (cases st)
      case (Diagnosed d)
      then have "main e s = Some (Failed d)" using st unfolding main_def by simp
      then show ?thesis by simp
    next
      case AllocFailed
      then have "main e s = Some (Crashed BadAlloc)" using st unfolding main_def by simp
      then show ?thesis by simp
    qed
  qed
  have ei: "extract_int t = Some (v, rest) \<longleftrightarrow> reads_as (- (2 ^ 31)) (2 ^ 31 - 1) t v rest" for t v rest
    unfolding extract_int_def by (rule extract_num_iff)
  have el: "extract_ll t = Some (v, rest) \<longleftrightarrow> reads_as (- (2 ^ 63)) (2 ^ 63 - 1) t v rest" for t v rest
    unfolding extract_ll_def by (rule extract_num_iff)
  show ?thesis
    by (intro conjI allI impI tot ok ab np bl br bad ei el extract4_iff)
qed

theorem C8_input_errors_witness:
  "main roomy ''2 0 0 1 1 5 5 4 6'' = Some (Failed (BadRect 1)) \<and>
   exit_status (Failed (BadRect 1)) = 1 \<and>
   (\<nexists>R. input_ok ''2 0 0 1 1 5 5 4 6'' R) \<and>
   (\<exists>n s0 j R s1 r s2. extract_int ''2 0 0 1 1 5 5 4 6'' = Some (n, s0) \<and> 0 < n \<and>
      can_alloc roomy (nat n) \<and> j < nat n \<and>
      1 = int j \<and> extract_records j s0 = Some (R, s1) \<and> (\<forall>r\<in>set R. ordered r) \<and>
      extract4 s1 = Some (r, s2) \<and> \<not> ordered r) \<and>
   reads_as (- (2 ^ 31)) (2 ^ 31 - 1) ''2 0 0 1 1 5 5 4 6'' 2 '' 0 0 1 1 5 5 4 6''"
proof -
  have m: "main roomy ''2 0 0 1 1 5 5 4 6'' = Some (Failed (BadRect 1))" by code_simp
  have x: "extract_int ''2 0 0 1 1 5 5 4 6'' = Some (2, '' 0 0 1 1 5 5 4 6'')" by code_simp
  note c = C8_input_errors[of roomy "''2 0 0 1 1 5 5 4 6''"]
  from c have "(\<exists>v ls. main roomy ''2 0 0 1 1 5 5 4 6'' = Some (Solved v ls)) \<longleftrightarrow>
      (\<exists>R. input_ok ''2 0 0 1 1 5 5 4 6'' R \<and> can_alloc roomy (length R) \<and>
         engine_crash roomy R = None)"
    by (elim conjE)
  then have 1: "\<nexists>R. input_ok ''2 0 0 1 1 5 5 4 6'' R" unfolding m by (simp add: roomy_def)
  from c have "\<forall>l. main roomy ''2 0 0 1 1 5 5 4 6'' = Some (Failed (BadRect l)) \<longleftrightarrow>
      (\<exists>n s0 j R s1 r s2. extract_int ''2 0 0 1 1 5 5 4 6'' = Some (n, s0) \<and> 0 < n \<and>
         can_alloc roomy (nat n) \<and> j < nat n \<and>
         l = int j \<and> extract_records j s0 = Some (R, s1) \<and> (\<forall>r\<in>set R. ordered r) \<and>
         extract4 s1 = Some (r, s2) \<and> \<not> ordered r)" by (elim conjE)
  from this[rule_format, of 1] m
  have 2: "\<exists>n s0 j R s1 r s2. extract_int ''2 0 0 1 1 5 5 4 6'' = Some (n, s0) \<and> 0 < n \<and>
      can_alloc roomy (nat n) \<and> j < nat n \<and>
      1 = int j \<and> extract_records j s0 = Some (R, s1) \<and> (\<forall>r\<in>set R. ordered r) \<and>
      extract4 s1 = Some (r, s2) \<and> \<not> ordered r" by simp
  from c have "\<forall>t v rest. extract_int t = Some (v, rest) \<longleftrightarrow>
      reads_as (- (2 ^ 31)) (2 ^ 31 - 1) t v rest" by (elim conjE)
  from this[rule_format, of "''2 0 0 1 1 5 5 4 6''" 2 "'' 0 0 1 1 5 5 4 6''"] x
  have 3: "reads_as (- (2 ^ 31)) (2 ^ 31 - 1) ''2 0 0 1 1 5 5 4 6'' 2 '' 0 0 1 1 5 5 4 6''" by simp
  show ?thesis using m 1 2 3 by simp
qed

text \<open>
  C9. For every valid instance (n \<ge> 1 rectangles, each with xl < xr and yb < yt) the value
  \<open>solve\<close> returns on the full bounding window is at least 1; and whenever the program
  prints a solution block, on whatever machine, the count it reports is at least 1.
\<close>

theorem C9_root_value_positive:
  "(valid_instance R \<longrightarrow> 1 \<le> val (fst (engine R))) \<and>
   (main e s = Some (Solved v ls) \<longrightarrow> 1 \<le> v)"
proof -
  have p: "1 \<le> val (fst (engine R))" if v: "valid_instance R" for R
  proof -
    let ?X = "int (length (compress_xs R)) - 1" and ?Y = "int (length (compress_ys R)) - 1"
    from engine_facts[OF v] have e: "fst (engine R) = solve0 (index_all R) 0 ?X 0 ?Y" by auto
    from valid_root[OF v] have r: "0 < ?X" "0 < ?Y" "windowHasAnyRect (index_all R) 0 ?X 0 ?Y"
      by simp_all
    from solve0_pos[OF valid_proper[OF v] r] show ?thesis unfolding e .
  qed
  have "1 \<le> v" if m: "main e s = Some (Solved v ls)"
  proof -
    from m have "\<exists>v ls. main e s = Some (Solved v ls)" by blast
    then obtain R' where R': "read_input (can_alloc e) s = Inr R'" "engine_crash e R' = None"
      unfolding main_Solved_iff by blast
    from main_valid[OF read_input_valid[OF R'(1)] R'] m have "v = val (fst (engine R'))" by auto
    then show ?thesis using p[OF read_input_valid[OF R'(1)]] by simp
  qed
  then show ?thesis using p by blast
qed

theorem C9_root_value_positive_witness:
  "valid_instance scenario \<and> 1 \<le> val (fst (engine scenario)) \<and>
   main roomy ''3 0 0 2 2 1 1 3 3 0 2 2 4'' =
     Some (Solved 2 [(0, \<lparr>xl = 0, yb = 0, xr = 2, yt = 2\<rparr>), (2, \<lparr>xl = 0, yb = 2, xr = 2, yt = 4\<rparr>)]) \<and>
   (1::int) \<le> 2"
proof -
  have v: "valid_instance scenario" by (simp add: valid_instance_def scenario_def)
  have m: "main roomy ''3 0 0 2 2 1 1 3 3 0 2 2 4'' =
     Some (Solved 2 [(0, \<lparr>xl = 0, yb = 0, xr = 2, yt = 2\<rparr>), (2, \<lparr>xl = 0, yb = 2, xr = 2, yt = 4\<rparr>)])"
    by code_simp
  from C9_root_value_positive[of scenario roomy "''3 0 0 2 2 1 1 3 3 0 2 2 4''" 2
      "[(0, \<lparr>xl = 0, yb = 0, xr = 2, yt = 2\<rparr>), (2, \<lparr>xl = 0, yb = 2, xr = 2, yt = 4\<rparr>)]"] v m
  show ?thesis by simp
qed

text \<open>
  C10. For every valid instance, every window on which the reconstruction started at the
  full bounding window is invoked has an entry in the table \<open>solve\<close> left, so the lookup of
  \<open>recon\<close> never fails; and both sub-windows of every cut stored in that table have
  entries.
\<close>

theorem C10_recon_never_misses:
  assumes "valid_instance R"
  shows "(\<forall>k. recon_visits (snd (engine R)) (root_window R) k \<longrightarrow> snd (engine R) k \<noteq> None) \<and>
         (\<forall>xi xj yk yl a. snd (engine R) (xi, xj, yk, yl) = Some a \<and> type (ch a) = 2 \<longrightarrow>
            snd (engine R) (xi, param (ch a), yk, yl) \<noteq> None \<and>
            snd (engine R) (param (ch a), xj, yk, yl) \<noteq> None) \<and>
         (\<forall>xi xj yk yl a. snd (engine R) (xi, xj, yk, yl) = Some a \<and> type (ch a) = 3 \<longrightarrow>
            snd (engine R) (xi, xj, yk, param (ch a)) \<noteq> None \<and>
            snd (engine R) (xi, xj, param (ch a), yl) \<noteq> None)"
proof -
  from engine_facts[OF assms] have inv: "memo_inv (index_all R) (snd (engine R))"
    and root: "snd (engine R) (root_window R) \<noteq> None" by auto
  have 1: "snd (engine R) k \<noteq> None" if "recon_visits (snd (engine R)) (root_window R) k" for k
    using recon_visits_memo[OF inv that root] .
  have 2: "snd (engine R) (xi, param (ch a), yk, yl) \<noteq> None \<and>
           snd (engine R) (param (ch a), xj, yk, yl) \<noteq> None"
    if "snd (engine R) (xi, xj, yk, yl) = Some a" "type (ch a) = 2" for xi xj yk yl a
    using inv that unfolding memo_inv_def by blast
  have 3: "snd (engine R) (xi, xj, yk, param (ch a)) \<noteq> None \<and>
           snd (engine R) (xi, xj, param (ch a), yl) \<noteq> None"
    if "snd (engine R) (xi, xj, yk, yl) = Some a" "type (ch a) = 3" for xi xj yk yl a
    using inv that unfolding memo_inv_def by blast
  show ?thesis using 1 2 3 by blast
qed

theorem C10_recon_never_misses_witness:
  "valid_instance scenario \<and>
   recon_visits (snd (engine scenario)) (root_window scenario) (0, 2, 2, 4) \<and>
   snd (engine scenario) (0, 2, 2, 4) \<noteq> None \<and>
   snd (engine scenario) (0, 3, 0, 4) = Some \<lparr>val = 2, ch = \<lparr>type = 2, param = 2\<rparr>\<rparr> \<and>
   snd (engine scenario) (0, 2, 0, 4) \<noteq> None \<and> snd (engine scenario) (2, 3, 0, 4) \<noteq> None"
proof -
  have v: "valid_instance scenario" by (simp add: valid_instance_def scenario_def)
  note e1 = scenario_memo_root and e2 = scenario_memo_left
  have "recon_visits (snd (engine scenario)) (0, 2, 0, 4) (0, 2, 2, 4)"
    by (rule recon_visits.htop[of "snd (engine scenario)" 0 2 0 4, OF e2])
       (simp_all add: recon_visits.here)
  then have vis: "recon_visits (snd (engine scenario)) (root_window scenario) (0, 2, 2, 4)"
    unfolding scenario_root
    by (intro recon_visits.vleft[of "snd (engine scenario)" 0 3 0 4, OF e1]) simp_all
  note c = C10_recon_never_misses[OF v]
  from c vis have 1: "snd (engine scenario) (0, 2, 2, 4) \<noteq> None" by blast
  from c have "type (ch \<lparr>val = 2, ch = \<lparr>type = 2, param = 2\<rparr>\<rparr>) = 2 \<longrightarrow>
      snd (engine scenario) (0, param (ch \<lparr>val = 2, ch = \<lparr>type = 2, param = 2\<rparr>\<rparr>), 0, 4) \<noteq> None \<and>
      snd (engine scenario) (param (ch \<lparr>val = 2, ch = \<lparr>type = 2, param = 2\<rparr>\<rparr>), 3, 0, 4) \<noteq> None"
    using e1 by blast
  then have 2: "snd (engine scenario) (0, 2, 0, 4) \<noteq> None \<and> snd (engine scenario) (2, 3, 0, 4) \<noteq> None"
    by simp
  show ?thesis using v vis 1 2 e1 by blast
qed

end
